theory Spec2Isabelle
  imports Main "HOL-Library.Word" "HOL-Library.Log_Nat"
begin

section \<open>Data model of the voice-microphone sketch\<close>

text \<open>
  The development follows the BLE sketch (header "version 1.3"), the file that defines
  \<open>handleBLECommand\<close>, \<open>sendAudioToPc\<close> and the manual/automatic recording modes.
  All mutable globals of the sketch are the fields of one record; every function of the
  sketch becomes a function from device to device.  Values that the sketch obtains from
  its environment are explicit arguments: each \<open>millis()\<close> reading, the result of
  \<open>i2s_read\<close>, and the point at which the BLE stack delivers a disconnect while a
  transfer is running.

  \<open>unsigned long\<close> is 32 bits wide on the ESP32, so timestamps are \<open>32 word\<close> and
  their subtraction wraps.  Sample counts are \<open>size_t\<close>; they are natural numbers here,
  and the one place where a \<open>size_t\<close> product could wrap has the \<open>mod\<close> written out.
  The recording buffer is the memory that starts at the address \<open>recordingBuffer\<close>,
  indexed in samples: indices from \<open>maxBufferSize\<close> on are memory behind the allocation.
  LED, LCD and serial-console output is not part of the model.
\<close>

datatype SystemState = IDLE | RECORDING | PROCESSING | PLAYING | BLUETOOTH_DISCONNECTED

type_synonym millis = "32 word"
type_synonym sample = "16 word"
type_synonym byte = "8 word"

record device =
  currentState :: SystemState
  bluetoothConnected :: bool
  recordingActive :: bool
  recordingStartTime :: millis
  deviceConnected :: bool
  oldDeviceConnected :: bool
  lastSpeechTime :: millis
  speechDetected :: bool
  manualRecording :: bool
  recordingBuffer :: "nat \<Rightarrow> sample"
  bufferIndex :: nat
  maxBufferSize :: nat
  pAudioCharacteristic :: bool
  pCommandCharacteristic :: bool
  audioNotified :: "byte list list"
  commandNotified :: "byte list list"

text \<open>
  \<open>pAudioCharacteristic\<close> and \<open>pCommandCharacteristic\<close> record whether the pointer is
  non-null.  \<open>audioNotified\<close> and \<open>commandNotified\<close> are the values the sketch has
  pushed with \<open>setValue\<close> and \<open>notify\<close> on either characteristic, oldest first.
\<close>

definition SAMPLE_RATE :: nat where "SAMPLE_RATE = 16000"
definition BUFFER_SIZE :: nat where "BUFFER_SIZE = 1024"
definition MAX_AUDIO_DURATION :: nat where "MAX_AUDIO_DURATION = 15"
definition FIXED_RECORDING_DURATION :: nat where "FIXED_RECORDING_DURATION = 15"
definition REALTIME_CHUNK_DURATION :: nat where "REALTIME_CHUNK_DURATION = 3"
definition SILENCE_THRESHOLD :: int where "SILENCE_THRESHOLD = 500"
definition SILENCE_DURATION :: millis where "SILENCE_DURATION = 1000"
definition MIN_RECORDING_DURATION :: millis where "MIN_RECORDING_DURATION = 300"
definition chunkSize :: nat where "chunkSize = 18"

subsection \<open>Allocation of the recording buffer\<close>

text \<open>
  \<open>initAudioBuffer\<close> settles the capacity once, at start-up.  \<open>freeHeap\<close> is what
  \<open>ESP.getFreeHeap()\<close> returns, \<open>first\<close> and \<open>second\<close> say whether the first and the
  fallback \<open>malloc\<close> succeed.  The result is \<open>maxBufferSize\<close> and whether a buffer was
  obtained.
\<close>

definition initAudioBuffer :: "32 word \<Rightarrow> bool \<Rightarrow> bool \<Rightarrow> nat \<times> bool" where
  "initAudioBuffer freeHeap first second =
     (let requiredMemory = SAMPLE_RATE * MAX_AUDIO_DURATION * 2;
          maxBufferSize =
            (if unat freeHeap < requiredMemory + 50000
             then min (unat (freeHeap - 50000) div 2) (SAMPLE_RATE * 10)
             else SAMPLE_RATE * MAX_AUDIO_DURATION)
      in if first then (maxBufferSize, True) else (SAMPLE_RATE * 5, second))"

subsection \<open>Single-precision arithmetic\<close>

text \<open>
  \<open>handleRecordingState\<close> computes its duration limit in \<open>float\<close>.  A float is the
  rational it denotes; \<open>f32\<close> rounds a rational to the nearest value with a 24-bit
  significand, ties to even.  Exponent range is not modelled: the sketch only forms
  values between \<open>1/16000\<close> and \<open>2^32\<close>.
\<close>

definition pow2 :: "int \<Rightarrow> rat" where
  "pow2 k = (if 0 \<le> k then 2 ^ nat k else 1 / 2 ^ nat (- k))"

definition f32_exponent :: "rat \<Rightarrow> int" where
  "f32_exponent x =
     (let (p, q) = quotient_of x; e0 = bitlen p - bitlen q
      in if pow2 e0 \<le> x then e0 else e0 - 1)"

definition round_half_even :: "rat \<Rightarrow> int" where
  "round_half_even y =
     (let f = \<lfloor>y\<rfloor>; r = y - of_int f
      in if r < 1 / 2 then f else if 1 / 2 < r then f + 1 else if even f then f else f + 1)"

definition f32 :: "rat \<Rightarrow> rat" where
  "f32 x =
     (if x = 0 then 0
      else let k = f32_exponent \<bar>x\<bar> - 23
           in sgn x * of_int (round_half_even (\<bar>x\<bar> / pow2 k)) * pow2 k)"

subsection \<open>Voice activity detection and the recording buffer\<close>

text \<open>
  The level of a block: the sum of \<open>abs\<close> of the samples (computed in \<open>int\<close>), divided
  by the number of samples, stored into an \<open>int16_t\<close>.
\<close>

definition rms :: "sample list \<Rightarrow> sample" where
  "rms block = word_of_int (sum_list (map (\<lambda>x. \<bar>sint x\<bar>) block) div int (length block))"

definition memcpy_samples :: "(nat \<Rightarrow> sample) \<Rightarrow> nat \<Rightarrow> sample list \<Rightarrow> nat \<Rightarrow> (nat \<Rightarrow> sample)" where
  "memcpy_samples mem dst src n = (\<lambda>i. if dst \<le> i \<and> i < dst + n then src ! (i - dst) else mem i)"

text \<open>
  The statement that copies the block into the recording buffer; the sketch has it twice,
  once in either branch of \<open>checkVoiceActivity\<close>.
\<close>

definition store_block :: "sample list \<Rightarrow> device \<Rightarrow> device" where
  "store_block block s =
     (if recordingActive s \<and> bufferIndex s < maxBufferSize s then
        let samplesToAdd = min (length block) (maxBufferSize s - bufferIndex s)
        in s\<lparr>recordingBuffer := memcpy_samples (recordingBuffer s) (bufferIndex s) block samplesToAdd,
             bufferIndex := bufferIndex s + samplesToAdd\<rparr>
      else s)"

text \<open>
  \<open>rd\<close> is the outcome of \<open>i2s_read\<close>: \<open>None\<close> when it does not return \<open>ESP_OK\<close>,
  otherwise the samples read (whole samples, at most \<open>BUFFER_SIZE\<close> of them, none when
  \<open>bytesRead\<close> is 0).  \<open>now\<close> is the \<open>millis()\<close> reading of the call.
\<close>

definition checkVoiceActivity :: "sample list option \<Rightarrow> millis \<Rightarrow> device \<Rightarrow> bool \<times> device" where
  "checkVoiceActivity rd now s =
     (case rd of
        None \<Rightarrow> (False, s)
      | Some block \<Rightarrow>
          if block = [] then (False, s)
          else if SILENCE_THRESHOLD < sint (rms block) then
            (True, store_block block (s\<lparr>speechDetected := True, lastSpeechTime := now\<rparr>))
          else
            let s1 = store_block block s;
                s2 = (if speechDetected s1 \<and> SILENCE_DURATION < now - lastSpeechTime s1
                      then s1\<lparr>speechDetected := False\<rparr> else s1)
            in (speechDetected s2, s2))"

subsection \<open>Starting and stopping a recording\<close>

text \<open>\<open>t1\<close> and \<open>t2\<close> are the two consecutive \<open>millis()\<close> readings of the function.\<close>

definition startRecording :: "bool \<Rightarrow> millis \<Rightarrow> millis \<Rightarrow> device \<Rightarrow> device" where
  "startRecording manual t1 t2 s =
     (if currentState s \<noteq> IDLE \<or> \<not> bluetoothConnected s then s
      else s\<lparr>manualRecording := manual, bufferIndex := 0, recordingStartTime := t1,
             lastSpeechTime := t2, recordingActive := True, speechDetected := True,
             currentState := RECORDING\<rparr>)"

definition le32 :: "32 word \<Rightarrow> byte list" where
  "le32 w = [ucast w, ucast (drop_bit 8 w), ucast (drop_bit 16 w), ucast (drop_bit 24 w)]"

definition sample_bytes :: "sample \<Rightarrow> byte list" where
  "sample_bytes x = [ucast x, ucast (drop_bit 8 x)]"

text \<open>The byte at \<open>(uint8_t*)recordingBuffer + i\<close>; the ESP32 is little-endian.\<close>

definition buffer_byte :: "(nat \<Rightarrow> sample) \<Rightarrow> nat \<Rightarrow> byte" where
  "buffer_byte mem i = sample_bytes (mem (i div 2)) ! (i mod 2)"

definition notifyAudio :: "byte list \<Rightarrow> device \<Rightarrow> device" where
  "notifyAudio v s = s\<lparr>audioNotified := audioNotified s @ [v]\<rparr>"

definition onConnect :: "device \<Rightarrow> device" where
  "onConnect s = s\<lparr>deviceConnected := True\<rparr>"

definition onDisconnect :: "device \<Rightarrow> device" where
  "onDisconnect s = s\<lparr>deviceConnected := False\<rparr>"

text \<open>
  The chunk loop of \<open>sendAudioToPc\<close>.  The BLE stack runs \<open>onDisconnect\<close> on its own
  task; \<open>lost = Some k\<close> says that it does so just before the loop tests the connection
  for chunk number \<open>k\<close> (counted from 0), \<open>lost = None\<close> that it does not happen during
  the transfer.
\<close>

function sendChunks :: "nat option \<Rightarrow> nat \<Rightarrow> nat \<Rightarrow> device \<Rightarrow> device" where
  "sendChunks lost totalBytes i s =
     (if i < totalBytes then
        let s1 = (if lost = Some (i div chunkSize) then onDisconnect s else s)
        in if \<not> deviceConnected s1 \<or> \<not> bluetoothConnected s1 then s1
           else
             let remainingBytes = min chunkSize (totalBytes - i);
                 chunk = map (buffer_byte (recordingBuffer s1)) [i ..< i + remainingBytes]
             in sendChunks lost totalBytes (i + chunkSize) (notifyAudio chunk s1)
      else s)"
  by pat_completeness auto
termination
  by (relation "measure (\<lambda>(lost, totalBytes, i, s). totalBytes - i)") (auto simp: chunkSize_def)

definition headerData :: "nat \<Rightarrow> byte list" where
  "headerData n = 0x41 # le32 (of_nat n) @ le32 (of_nat SAMPLE_RATE)"

definition sendAudioToPc :: "nat option \<Rightarrow> device \<Rightarrow> device" where
  "sendAudioToPc lost s =
     (if \<not> bluetoothConnected s \<or> \<not> pAudioCharacteristic s then s
      else
        let totalBytes = (bufferIndex s * 2) mod 2 ^ 32
        in sendChunks lost totalBytes 0 (notifyAudio (headerData (bufferIndex s)) s))"

text \<open>
  \<open>now\<close> is the \<open>millis()\<close> reading that gives \<open>actualDuration\<close>.  The sketch also
  computes \<open>hasValidDuration\<close> from \<open>MIN_RECORDING_DURATION\<close> and does not use it.
\<close>

definition stopRecording :: "millis \<Rightarrow> nat option \<Rightarrow> device \<Rightarrow> device" where
  "stopRecording now lost s =
     (if currentState s \<noteq> RECORDING then s
      else
        let s1 = s\<lparr>recordingActive := False, manualRecording := False\<rparr>;
            actualDuration = now - recordingStartTime s1;
            hasValidAudio = (100 < bufferIndex s1)
        in if hasValidAudio \<and> 100 \<le> actualDuration
           then (sendAudioToPc lost s1)\<lparr>currentState := PROCESSING\<rparr>
           else s1\<lparr>currentState := IDLE\<rparr>)"

subsection \<open>The periodic handler of the recording state\<close>

definition maxRecordingTime :: "device \<Rightarrow> rat" where
  "maxRecordingTime s = f32 (f32 (of_nat (maxBufferSize s)) / of_nat SAMPLE_RATE)"

definition targetDuration :: "device \<Rightarrow> rat" where
  "targetDuration s = min (of_nat FIXED_RECORDING_DURATION) (maxRecordingTime s)"

definition realtimeChunkTime :: "device \<Rightarrow> rat" where
  "realtimeChunkTime s = min (of_nat REALTIME_CHUNK_DURATION) (maxRecordingTime s)"

text \<open>
  \<open>currentTime\<close> is the reading at the top of the handler, \<open>tv\<close> the one inside
  \<open>checkVoiceActivity\<close>, \<open>ts\<close> the one inside \<open>stopRecording\<close>.  The comparison with
  the duration limit is a comparison of floats: \<open>elapsedTime\<close> is converted.
\<close>

definition handleRecordingState ::
    "millis \<Rightarrow> sample list option \<Rightarrow> millis \<Rightarrow> millis \<Rightarrow> nat option \<Rightarrow> device \<Rightarrow> device" where
  "handleRecordingState currentTime rd tv ts lost s =
     (let elapsedTime = currentTime - recordingStartTime s
      in if manualRecording s then
           if f32 (targetDuration s * 1000) \<le> f32 (of_nat (unat elapsedTime))
           then stopRecording ts lost s
           else snd (checkVoiceActivity rd tv s)
         else
           if f32 (realtimeChunkTime s * 1000) \<le> f32 (of_nat (unat elapsedTime))
           then stopRecording ts lost s
           else
             let (speaking, s1) = checkVoiceActivity rd tv s
             in if \<not> speaking then
                  if SILENCE_DURATION < currentTime - lastSpeechTime s1 then
                    if 100 < elapsedTime \<and> 50 < bufferIndex s1
                    then stopRecording ts lost s1
                    else s1
                  else s1
                else s1)"

subsection \<open>Link supervision and host commands\<close>

definition checkBluetoothConnection :: "device \<Rightarrow> device" where
  "checkBluetoothConnection s =
     (let s1 = (if \<not> deviceConnected s \<and> oldDeviceConnected s
                then s\<lparr>oldDeviceConnected := deviceConnected s, bluetoothConnected := False,
                       currentState := BLUETOOTH_DISCONNECTED, recordingActive := False\<rparr>
                else s)
      in if deviceConnected s1 \<and> \<not> oldDeviceConnected s1
         then s1\<lparr>oldDeviceConnected := deviceConnected s1, bluetoothConnected := True,
                 currentState := IDLE\<rparr>
         else s1)"

fun state_ordinal :: "SystemState \<Rightarrow> byte" where
  "state_ordinal IDLE = 0"
| "state_ordinal RECORDING = 1"
| "state_ordinal PROCESSING = 2"
| "state_ordinal PLAYING = 3"
| "state_ordinal BLUETOOTH_DISCONNECTED = 4"

definition sendStatus :: "device \<Rightarrow> device" where
  "sendStatus s =
     (if \<not> bluetoothConnected s \<or> \<not> pCommandCharacteristic s then s
      else s\<lparr>commandNotified := commandNotified s @
               [[0x53, state_ordinal (currentState s),
                 if bluetoothConnected s then 1 else 0,
                 if recordingActive s then 1 else 0]]\<rparr>)"

text \<open>
  \<open>handlePlayAudio\<close> enters \<open>PLAYING\<close>, plays the two-second test tone and returns to
  \<open>IDLE\<close>; the tone itself is output only.
\<close>

definition handlePlayAudio :: "device \<Rightarrow> device" where
  "handlePlayAudio s = (s\<lparr>currentState := PLAYING\<rparr>)\<lparr>currentState := IDLE\<rparr>"

definition handleError :: "device \<Rightarrow> device" where
  "handleError s = s\<lparr>currentState := IDLE\<rparr>"

definition handleBLECommand :: "char \<Rightarrow> device \<Rightarrow> device" where
  "handleBLECommand command s =
     (if command = CHR ''P'' then handlePlayAudio s
      else if command = CHR ''S'' then sendStatus s
      else if command = CHR ''R'' then s\<lparr>currentState := IDLE\<rparr>
      else if command = CHR ''E'' then handleError s
      else s)"

text \<open>The state after \<open>setup()\<close>, with a buffer of \<open>n\<close> samples and both characteristics created.\<close>

definition initial_device :: "nat \<Rightarrow> device" where
  "initial_device n =
     \<lparr>currentState = BLUETOOTH_DISCONNECTED, bluetoothConnected = False, recordingActive = False,
      recordingStartTime = 0, deviceConnected = False, oldDeviceConnected = False,
      lastSpeechTime = 0, speechDetected = False, manualRecording = False,
      recordingBuffer = (\<lambda>_. 0), bufferIndex = 0, maxBufferSize = n,
      pAudioCharacteristic = True, pCommandCharacteristic = True,
      audioNotified = [], commandNotified = []\<rparr>"

subsection \<open>Runs of the voice-activity check\<close>

text \<open>
  Successive calls of \<open>checkVoiceActivity\<close>, one per tick: each tick is the block that
  \<open>i2s_read\<close> delivered and the \<open>millis()\<close> reading of the call.
\<close>

fun vad_run :: "(sample list \<times> millis) list \<Rightarrow> device \<Rightarrow> device" where
  "vad_run [] s = s"
| "vad_run ((block, now) # rest) s = vad_run rest (snd (checkVoiceActivity (Some block) now s))"

subsection \<open>Runs of the recording handler\<close>

text \<open>
  The ticks of one session, as \<open>loop()\<close> dispatches them: the handler runs while the state
  is \<open>RECORDING\<close>.  A tick carries the three clock readings in milliseconds since boot,
  the outcome of \<open>i2s_read\<close> and the disconnect point of a transfer; the sketch sees the
  readings modulo \<open>2^32\<close>.  A run is chronological from \<open>t\<close> on when the readings that
  matter to the voice tracker never decrease.
\<close>

type_synonym tick = "nat \<times> sample list option \<times> nat \<times> nat \<times> nat option"

fun session_run :: "tick list \<Rightarrow> device \<Rightarrow> device" where
  "session_run [] s = s"
| "session_run ((t0, rd, tv, ts, lost) # rest) s =
     (if currentState s = RECORDING
      then session_run rest (handleRecordingState (of_nat t0) rd (of_nat tv) (of_nat ts) lost s)
      else s)"

fun chronological :: "nat \<Rightarrow> tick list \<Rightarrow> bool" where
  "chronological t [] = True"
| "chronological t ((t0, rd, tv, ts, lost) # rest) = (t \<le> t0 \<and> t0 \<le> tv \<and> chronological tv rest)"

text \<open>The last speech stamp is the reading of a time between the start of the session and the clock.\<close>

definition stamped :: "nat \<Rightarrow> nat \<Rightarrow> device \<Rightarrow> bool" where
  "stamped T c s \<longleftrightarrow> (\<exists>L. lastSpeechTime s = of_nat L \<and> T \<le> L \<and> L \<le> c)"

subsection \<open>The older serial-Bluetooth sketch\<close>

text \<open>
  The repository also holds the first version of the sketch (header "version 1.0"), which
  talks to the host over classic Bluetooth serial.  Its \<open>checkVoiceActivity\<close> stores a
  block only when the level is above the threshold, limits the number of bytes copied, and
  advances the write index by the whole block.
\<close>

definition checkVoiceActivity_v1 :: "sample list option \<Rightarrow> millis \<Rightarrow> device \<Rightarrow> bool \<times> device" where
  "checkVoiceActivity_v1 rd now s =
     (case rd of
        None \<Rightarrow> (False, s)
      | Some block \<Rightarrow>
          if block = [] then (False, s)
          else if SILENCE_THRESHOLD < sint (rms block) then
            let s1 = s\<lparr>speechDetected := True, lastSpeechTime := now\<rparr>;
                bytesRead = 2 * length block
            in (True,
                if recordingActive s1 \<and> bufferIndex s1 < maxBufferSize s1 then
                  s1\<lparr>recordingBuffer :=
                        memcpy_samples (recordingBuffer s1) (bufferIndex s1) block
                          (min bytesRead ((maxBufferSize s1 - bufferIndex s1) * 2) div 2),
                      bufferIndex := bufferIndex s1 + length block\<rparr>
                else s1)
          else
            let s2 = (if speechDetected s \<and> SILENCE_DURATION < now - lastSpeechTime s
                      then s\<lparr>speechDetected := False\<rparr> else s)
            in (speechDetected s2, s2))"

definition v1_device :: device where
  "v1_device = (initial_device 160000)\<lparr>currentState := RECORDING, bluetoothConnected := True,
      recordingActive := True, speechDetected := True\<rparr>"

subsection \<open>Buttons, the idle handler and the main loop\<close>

text \<open>
  \<open>checkButtons\<close> and \<open>handleIdleState\<close> keep \<open>static\<close> locals between calls; they are
  the fields of \<open>sketch\<close> next to the device.  A pin level is \<open>True\<close> for \<open>HIGH\<close>.
\<close>

record sketch =
  dev :: device
  lastButtonCheck :: millis
  lastRecordState :: bool
  lastModeState :: bool
  lastVoiceCheck :: millis

text \<open>
  What one call of \<open>checkButtons\<close> obtains from its environment, in program order: the
  \<open>millis()\<close> reading of the debounce test, the two pin levels, the two readings of
  \<open>startRecording\<close> and the reading and disconnect point of \<open>stopRecording\<close> for the
  record button, the same for the \<open>stopRecording\<close> of \<open>handleModeButton\<close>, and the
  reading stored in \<open>lastButtonCheck\<close>.  Clock readings are in milliseconds since boot;
  the sketch sees them modulo \<open>2^32\<close>.
\<close>

record button_readings =
  checkTime :: nat
  recordButton :: bool
  modeButton :: bool
  pressStart1 :: nat
  pressStart2 :: nat
  pressStop :: nat
  pressLost :: "nat option"
  modeStop :: nat
  modeLost :: "nat option"
  doneTime :: nat

text \<open>
  What the state handler that \<open>loop()\<close> dispatches obtains: the first \<open>millis()\<close> reading
  (the throttle test of \<open>handleIdleState\<close>, \<open>currentTime\<close> of \<open>handleRecordingState\<close>),
  the outcome of \<open>i2s_read\<close> and the reading inside \<open>checkVoiceActivity\<close>, the two
  readings of \<open>startRecording\<close>, the reading and disconnect point of \<open>stopRecording\<close>,
  and the reading stored in \<open>lastVoiceCheck\<close>.
\<close>

record handler_readings =
  entryTime :: nat
  i2sRead :: "sample list option"
  vadTime :: nat
  voiceStart1 :: nat
  voiceStart2 :: nat
  stopTime :: nat
  stopLost :: "nat option"
  idleDone :: nat

text \<open>\<open>showSystemInfo\<close>, the \<open>IDLE\<close> case of \<open>handleModeButton\<close>, writes to the console only.\<close>

definition handleModeButton :: "millis \<Rightarrow> nat option \<Rightarrow> device \<Rightarrow> device" where
  "handleModeButton ts lost s =
     (case currentState s of
        IDLE \<Rightarrow> s
      | RECORDING \<Rightarrow> stopRecording ts lost s
      | PROCESSING \<Rightarrow> s\<lparr>currentState := IDLE\<rparr>
      | PLAYING \<Rightarrow> s\<lparr>currentState := IDLE\<rparr>
      | BLUETOOTH_DISCONNECTED \<Rightarrow> s)"

text \<open>
  The two falling-edge tests of \<open>checkButtons\<close>, in the order the function has them;
  \<open>k\<close> holds the pin levels of the previous call.
\<close>

definition recordButtonEdge :: "button_readings \<Rightarrow> sketch \<Rightarrow> device \<Rightarrow> device" where
  "recordButtonEdge b k s =
     (if lastRecordState k \<and> \<not> recordButton b then
        if currentState s = IDLE
        then startRecording True (of_nat (pressStart1 b)) (of_nat (pressStart2 b)) s
        else if currentState s = RECORDING
        then stopRecording (of_nat (pressStop b)) (pressLost b) s
        else s
      else s)"

definition modeButtonEdge :: "button_readings \<Rightarrow> sketch \<Rightarrow> device \<Rightarrow> device" where
  "modeButtonEdge b k s =
     (if lastModeState k \<and> \<not> modeButton b
      then handleModeButton (of_nat (modeStop b)) (modeLost b) s
      else s)"

definition checkButtons :: "button_readings \<Rightarrow> sketch \<Rightarrow> sketch" where
  "checkButtons b k =
     (if of_nat (checkTime b) - lastButtonCheck k < 50 then k
      else k\<lparr>dev := modeButtonEdge b k (recordButtonEdge b k (dev k)),
             lastRecordState := recordButton b,
             lastModeState := modeButton b,
             lastButtonCheck := of_nat (doneTime b)\<rparr>)"

text \<open>The second half of \<open>handleIdleState\<close> refreshes the display and is left out.\<close>

definition handleIdleState :: "handler_readings \<Rightarrow> sketch \<Rightarrow> sketch" where
  "handleIdleState h k =
     (if 100 < of_nat (entryTime h) - lastVoiceCheck k then
        let (speaking, s1) = checkVoiceActivity (i2sRead h) (of_nat (vadTime h)) (dev k);
            s2 = (if speaking
                  then startRecording False (of_nat (voiceStart1 h)) (of_nat (voiceStart2 h)) s1
                  else s1)
        in k\<lparr>dev := s2, lastVoiceCheck := of_nat (idleDone h)\<rparr>
      else k)"

text \<open>
  The \<open>switch\<close> of \<open>loop()\<close>.  The handlers of \<open>PROCESSING\<close>, \<open>PLAYING\<close> and
  \<open>BLUETOOTH_DISCONNECTED\<close> drive the LEDs and the display only.
\<close>

definition handleState :: "handler_readings \<Rightarrow> sketch \<Rightarrow> sketch" where
  "handleState h k =
     (case currentState (dev k) of
        IDLE \<Rightarrow> handleIdleState h k
      | RECORDING \<Rightarrow>
          k\<lparr>dev := handleRecordingState (of_nat (entryTime h)) (i2sRead h) (of_nat (vadTime h))
                     (of_nat (stopTime h)) (stopLost h) (dev k)\<rparr>
      | PROCESSING \<Rightarrow> k
      | PLAYING \<Rightarrow> k
      | BLUETOOTH_DISCONNECTED \<Rightarrow> k)"

text \<open>One iteration of \<open>loop()\<close>; \<open>handleBluetoothData\<close> is empty.\<close>

definition loop :: "button_readings \<Rightarrow> handler_readings \<Rightarrow> sketch \<Rightarrow> sketch" where
  "loop b h k = handleState h (checkButtons b (k\<lparr>dev := checkBluetoothConnection (dev k)\<rparr>))"

text \<open>\<open>onWrite\<close> of the command characteristic; \<open>rxValue\<close> is the string it reads.\<close>

definition onWrite :: "string \<Rightarrow> device \<Rightarrow> device" where
  "onWrite rxValue s = (if 0 < length rxValue then handleBLECommand (rxValue ! 0) s else s)"

text \<open>The sketch after \<open>setup()\<close>.\<close>

definition initial_sketch :: "nat \<Rightarrow> sketch" where
  "initial_sketch n = \<lparr>dev = initial_device n, lastButtonCheck = 0, lastRecordState = True,
     lastModeState = True, lastVoiceCheck = 0\<rparr>"

subsection \<open>Runs of the sketch and their recording sessions\<close>

text \<open>
  What happens to the sketch, one event at a time: the three calls that make up an
  iteration of \<open>loop()\<close>, and the callbacks of the BLE stack, which may come between any
  two of them.  The link poll and the callbacks read no clock; their events carry the
  time at which they happen.
\<close>

datatype event =
    LinkPoll nat
  | Buttons button_readings
  | Handler handler_readings
  | BleConnect nat
  | BleDisconnect nat
  | BleWrite nat string

fun step :: "event \<Rightarrow> sketch \<Rightarrow> sketch" where
  "step (LinkPoll t) k = k\<lparr>dev := checkBluetoothConnection (dev k)\<rparr>"
| "step (Buttons b) k = checkButtons b k"
| "step (Handler h) k = handleState h k"
| "step (BleConnect t) k = k\<lparr>dev := onConnect (dev k)\<rparr>"
| "step (BleDisconnect t) k = k\<lparr>dev := onDisconnect (dev k)\<rparr>"
| "step (BleWrite t rxValue) k = k\<lparr>dev := onWrite rxValue (dev k)\<rparr>"

fun run :: "event list \<Rightarrow> sketch \<Rightarrow> sketch" where
  "run [] k = k"
| "run (e # es) k = run es (step e k)"

text \<open>
  The clock readings of an event in program order.  A run is chronological from \<open>t\<close> on
  when the readings never decrease; a reading on a path that the call does not take is
  not made, and any value in order will do for it.
\<close>

fun readings :: "event \<Rightarrow> nat list" where
  "readings (LinkPoll t) = [t]"
| "readings (Buttons b) = [checkTime b, pressStart1 b, pressStart2 b, pressStop b, modeStop b, doneTime b]"
| "readings (Handler h) = [entryTime h, vadTime h, voiceStart1 h, voiceStart2 h, stopTime h, idleDone h]"
| "readings (BleConnect t) = [t]"
| "readings (BleDisconnect t) = [t]"
| "readings (BleWrite t rxValue) = [t]"

fun chronological_events :: "nat \<Rightarrow> event list \<Rightarrow> bool" where
  "chronological_events t [] = True"
| "chronological_events t (e # es) =
     (sorted (t # readings e) \<and> chronological_events (last (readings e)) es)"

text \<open>
  A recording session lasts from the \<open>startRecording\<close> that takes the state to
  \<open>RECORDING\<close>, at the reading that becomes \<open>recordingStartTime\<close>, to the call that takes
  the state away from \<open>RECORDING\<close>.  The log of a run is the start of the session that is
  running, if any, and the sessions that are over, oldest first, each with start and stop
  time.  \<open>observe\<close> enters one call into the log: \<open>s\<close> and \<open>s'\<close> are the device before and
  after it, \<open>tb\<close> the reading at which the call would begin a session and \<open>te\<close> the one at
  which it would stop one.
\<close>

type_synonym session_log = "nat option \<times> (nat \<times> nat) list"

definition observe :: "nat \<Rightarrow> nat \<Rightarrow> device \<Rightarrow> device \<Rightarrow> session_log \<Rightarrow> session_log" where
  "observe tb te s s' lg =
     (if currentState s \<noteq> RECORDING \<and> currentState s' = RECORDING then (Some tb, snd lg)
      else if currentState s = RECORDING \<and> currentState s' \<noteq> RECORDING
      then (None, snd lg @ (case fst lg of None \<Rightarrow> [] | Some a \<Rightarrow> [(a, te)]))
      else lg)"

text \<open>
  The calls of an event that can begin or stop a session, in order, each with its two
  readings and the device it leaves.
\<close>

fun calls :: "event \<Rightarrow> sketch \<Rightarrow> (nat \<times> nat \<times> device) list" where
  "calls (Buttons b) k =
     (if of_nat (checkTime b) - lastButtonCheck k < 50 then []
      else [(pressStart1 b, pressStop b, recordButtonEdge b k (dev k)),
            (modeStop b, modeStop b, modeButtonEdge b k (recordButtonEdge b k (dev k)))])"
| "calls (Handler h) k = [(voiceStart1 h, stopTime h, dev (handleState h k))]"
| "calls (LinkPoll t) k = [(t, t, dev (step (LinkPoll t) k))]"
| "calls (BleConnect t) k = [(t, t, dev (step (BleConnect t) k))]"
| "calls (BleDisconnect t) k = [(t, t, dev (step (BleDisconnect t) k))]"
| "calls (BleWrite t rxValue) k = [(t, t, dev (step (BleWrite t rxValue) k))]"

fun observe_calls :: "(nat \<times> nat \<times> device) list \<Rightarrow> device \<Rightarrow> session_log \<Rightarrow> session_log" where
  "observe_calls [] s lg = lg"
| "observe_calls ((tb, te, s') # rest) s lg = observe_calls rest s' (observe tb te s s' lg)"

fun sessions :: "event list \<Rightarrow> sketch \<Rightarrow> session_log \<Rightarrow> session_log" where
  "sessions [] k lg = lg"
| "sessions (e # es) k lg = sessions es (step e k) (observe_calls (calls e k) (dev k) lg)"

text \<open>
  Sessions are separate from \<open>t\<close> on: the first begins at \<open>t\<close> or later, each stops no
  earlier than it began, and the next one, over or still running, begins no earlier
  than that.
\<close>

fun separate :: "nat \<Rightarrow> (nat \<times> nat) list \<Rightarrow> nat option \<Rightarrow> bool" where
  "separate t [] None = True"
| "separate t [] (Some a) = (t \<le> a)"
| "separate t ((a, b) # rest) running = (t \<le> a \<and> a \<le> b \<and> separate b rest running)"

text \<open>A call that leaves the state at \<open>RECORDING\<close> has not restarted the session.\<close>

definition continues :: "device \<Rightarrow> device \<Rightarrow> bool" where
  "continues s s' \<longleftrightarrow> recordingStartTime s' = recordingStartTime s
     \<and> bufferIndex s \<le> bufferIndex s'
     \<and> (\<forall>i < bufferIndex s. recordingBuffer s' i = recordingBuffer s i)"

text \<open>The calls, one by one: what a call does when it enters, and when it stays in, \<open>RECORDING\<close>.\<close>

definition call_ok :: "nat \<Rightarrow> device \<Rightarrow> device \<Rightarrow> bool" where
  "call_ok tb s s' \<longleftrightarrow>
     (currentState s \<noteq> RECORDING \<and> currentState s' = RECORDING \<longrightarrow>
        currentState s = IDLE \<and> bluetoothConnected s
        \<and> recordingStartTime s' = of_nat tb \<and> bufferIndex s' = 0)
     \<and> (currentState s = RECORDING \<and> currentState s' = RECORDING \<longrightarrow> continues s s')"

text \<open>
  What holds of the log at clock \<open>T\<close>: the sessions are separate, one is running exactly
  when the state is \<open>RECORDING\<close>, the device carries its start time, and nothing in the
  log is later than \<open>T\<close>.
\<close>

definition log_inv :: "nat \<Rightarrow> nat \<Rightarrow> device \<Rightarrow> session_log \<Rightarrow> bool" where
  "log_inv T0 T s lg \<longleftrightarrow>
     separate T0 (snd lg) (fst lg)
     \<and> (fst lg = None \<longleftrightarrow> currentState s \<noteq> RECORDING)
     \<and> (\<forall>a. fst lg = Some a \<longrightarrow> recordingStartTime s = of_nat a \<and> a \<le> T)
     \<and> (fst lg = None \<longrightarrow> separate T0 (snd lg) (Some T))"

section \<open>Reference states and notions of the wire format\<close>

text \<open>
  A device with a 15-second buffer whose link has come up and has been seen by
  \<open>checkBluetoothConnection\<close>, and an automatic session begun on it at 5000 ms that has
  taken one silent block of \<open>n\<close> samples at 5050 ms.
\<close>

definition connected_device :: device where
  "connected_device = checkBluetoothConnection (onConnect (initial_device 240000))"

definition session_with :: "nat \<Rightarrow> device" where
  "session_with n =
     snd (checkVoiceActivity (Some (replicate n 0)) 5050 (startRecording False 5000 5000 connected_device))"

text \<open>The same with a buffer of five samples, as after a start with almost no free heap.\<close>

definition small_device :: device where
  "small_device = checkBluetoothConnection (onConnect (initial_device 5))"

text \<open>The same with a buffer of five seconds.\<close>

definition five_second_device :: device where
  "five_second_device = checkBluetoothConnection (onConnect (initial_device 80000))"

text \<open>
  A call of \<open>checkButtons\<close> and a call of the state handler that take less than a
  millisecond at time \<open>t\<close>, with the link up throughout: the pin levels of the two
  buttons, the block that \<open>i2s_read\<close> returns.  The example run: the host connects, a
  press of the record button begins a manual session at 2000 ms, a silent and a loud
  block are recorded, a second press stops it at 2500 ms, the host reports ready, a loud
  block begins an automatic session at 3000 ms, the mode button stops it at 3400 ms, and
  a third press of the record button begins a session at 4000 ms.
\<close>

definition buttons_at :: "bool \<Rightarrow> bool \<Rightarrow> nat \<Rightarrow> button_readings" where
  "buttons_at rec_pin mode_pin t =
     \<lparr>checkTime = t, recordButton = rec_pin, modeButton = mode_pin, pressStart1 = t, pressStart2 = t,
      pressStop = t, pressLost = None, modeStop = t, modeLost = None, doneTime = t\<rparr>"

definition handler_at :: "sample list \<Rightarrow> nat \<Rightarrow> handler_readings" where
  "handler_at block t =
     \<lparr>entryTime = t, i2sRead = Some block, vadTime = t, voiceStart1 = t, voiceStart2 = t,
      stopTime = t, stopLost = None, idleDone = t\<rparr>"

definition example_start :: "event list" where
  "example_start = [BleConnect 1000, LinkPoll 1010, Buttons (buttons_at False True 2000),
     Handler (handler_at (replicate 200 0) 2010), Buttons (buttons_at True True 2100)]"

definition example_rest :: "event list" where
  "example_rest = [Handler (handler_at (replicate 200 1000) 2200),
     Buttons (buttons_at False True 2500), BleWrite 2600 ''R'',
     Handler (handler_at (replicate 160 1000) 3000), Buttons (buttons_at True False 3400),
     Buttons (buttons_at False True 4000)]"

text \<open>
  The raw content of a store of \<open>count\<close> samples: its samples in order, each as two
  bytes, low byte first.  The chunks of a byte string: chunk \<open>k\<close> is the next
  \<open>chunkSize\<close> bytes.
\<close>

definition store_bytes :: "(nat \<Rightarrow> sample) \<Rightarrow> nat \<Rightarrow> byte list" where
  "store_bytes mem count = concat (map (\<lambda>i. sample_bytes (mem i)) [0 ..< count])"

definition payload_chunks :: "byte list \<Rightarrow> byte list list" where
  "payload_chunks bytes =
     map (\<lambda>k. take chunkSize (drop (chunkSize * k) bytes))
         [0 ..< (length bytes + chunkSize - 1) div chunkSize]"

text \<open>
  What the host reads from a header: the tag byte, then two unsigned 32-bit values, low
  byte first.
\<close>

definition u32_of_le :: "byte list \<Rightarrow> nat" where
  "u32_of_le bs = unat (bs ! 0) + 256 * unat (bs ! 1) + 65536 * unat (bs ! 2) + 16777216 * unat (bs ! 3)"

definition decode_header :: "byte list \<Rightarrow> (nat \<times> nat) option" where
  "decode_header h =
     (if length h = 9 \<and> h ! 0 = 0x41
      then Some (u32_of_le (take 4 (drop 1 h)), u32_of_le (take 4 (drop 5 h)))
      else None)"

text \<open>
  Chunk \<open>k\<close> of the first \<open>n\<close> bytes of the buffer, and the number of chunks of a
  transfer that sees a disconnect before chunk \<open>k\<close>.
\<close>

definition chunk_at :: "(nat \<Rightarrow> sample) \<Rightarrow> nat \<Rightarrow> nat \<Rightarrow> byte list" where
  "chunk_at mem n k = take chunkSize (drop (chunkSize * k) (map (buffer_byte mem) [0 ..< n]))"

definition last_chunk :: "nat option \<Rightarrow> nat \<Rightarrow> nat" where
  "last_chunk lost n = (case lost of None \<Rightarrow> (n + chunkSize - 1) div chunkSize
                         | Some k \<Rightarrow> min k ((n + chunkSize - 1) div chunkSize))"

section \<open>Frame properties of the transfer\<close>

declare sendChunks.simps [simp del]

lemmas eval_defs = connected_device_def initial_device_def onConnect_def onDisconnect_def
  checkBluetoothConnection_def startRecording_def stopRecording_def Let_def

text \<open>The chunk loop touches the notification trace and \<open>deviceConnected\<close>, nothing else.\<close>

lemma sendChunks_frame:
  "\<exists>d ns. sendChunks lost n i s = s\<lparr>deviceConnected := d, audioNotified := ns\<rparr>"
proof (induction lost n i s rule: sendChunks.induct)
  case (1 lost n i s)
  show ?case
  proof (cases "i < n")
    case False
    then have "sendChunks lost n i s = s\<lparr>deviceConnected := deviceConnected s, audioNotified := audioNotified s\<rparr>"
      by (simp add: sendChunks.simps)
    then show ?thesis by blast
  next
    case True
    define s1 where "s1 = (if lost = Some (i div chunkSize) then onDisconnect s else s)"
    have s1: "s1 = s\<lparr>deviceConnected := deviceConnected s1, audioNotified := audioNotified s\<rparr>"
      by (simp add: s1_def onDisconnect_def)
    show ?thesis
    proof (cases "\<not> deviceConnected s1 \<or> \<not> bluetoothConnected s1")
      case True
      with \<open>i < n\<close> have "sendChunks lost n i s = s1"
        by (subst sendChunks.simps) (simp add: s1_def Let_def)
      with s1 show ?thesis by metis
    next
      case False
      define chunk where "chunk = map (buffer_byte (recordingBuffer s1)) [i ..< i + min chunkSize (n - i)]"
      from False \<open>i < n\<close> have eq: "sendChunks lost n i s = sendChunks lost n (i + chunkSize) (notifyAudio chunk s1)"
        by (subst sendChunks.simps) (simp add: s1_def chunk_def Let_def)
      from "1.IH" [OF \<open>i < n\<close> s1_def False refl chunk_def]
      obtain d ns where "sendChunks lost n (i + chunkSize) (notifyAudio chunk s1)
          = (notifyAudio chunk s1)\<lparr>deviceConnected := d, audioNotified := ns\<rparr>" by blast
      then have "sendChunks lost n i s = s\<lparr>deviceConnected := d, audioNotified := ns\<rparr>"
        using eq s1 by (simp add: notifyAudio_def) (metis device.surjective device.update_convs(5))
      then show ?thesis by blast
    qed
  qed
qed

lemma sendAudioToPc_frame:
  "\<exists>d ns. sendAudioToPc lost s = s\<lparr>deviceConnected := d, audioNotified := ns\<rparr>"
proof (cases "\<not> bluetoothConnected s \<or> \<not> pAudioCharacteristic s")
  case True
  then have "sendAudioToPc lost s = s\<lparr>deviceConnected := deviceConnected s, audioNotified := audioNotified s\<rparr>"
    by (simp add: sendAudioToPc_def)
  then show ?thesis by blast
next
  case False
  obtain d ns where "sendChunks lost ((bufferIndex s * 2) mod 2 ^ 32) 0 (notifyAudio (headerData (bufferIndex s)) s)
      = (notifyAudio (headerData (bufferIndex s)) s)\<lparr>deviceConnected := d, audioNotified := ns\<rparr>"
    using sendChunks_frame by blast
  with False have "sendAudioToPc lost s = s\<lparr>deviceConnected := d, audioNotified := ns\<rparr>"
    by (simp add: sendAudioToPc_def Let_def notifyAudio_def)
  then show ?thesis by blast
qed

section \<open>Evaluation of the reference states\<close>

lemma rms_replicate_0: "rms (replicate n 0) = 0"
  by (simp add: rms_def sum_list_replicate)

lemma connected_device_fields:
  "currentState connected_device = IDLE" "bluetoothConnected connected_device"
  "deviceConnected connected_device" "oldDeviceConnected connected_device"
  "pAudioCharacteristic connected_device" "maxBufferSize connected_device = 240000"
  "audioNotified connected_device = []" "\<not> recordingActive connected_device"
  by (simp_all add: eval_defs)

lemma session_with_fields:
  assumes "0 < n" "n \<le> 240000"
  shows "currentState (session_with n) = RECORDING" "bufferIndex (session_with n) = n"
    "recordingStartTime (session_with n) = 5000" "recordingActive (session_with n)"
    "bluetoothConnected (session_with n)" "audioNotified (session_with n) = []"
    "\<not> manualRecording (session_with n)" "maxBufferSize (session_with n) = 240000"
  using assms
  by (auto simp: session_with_def checkVoiceActivity_def store_block_def rms_replicate_0
      SILENCE_THRESHOLD_def SILENCE_DURATION_def eval_defs)

lemma session_with_link:
  assumes "0 < n" "n \<le> 240000"
  shows "deviceConnected (session_with n)" "pAudioCharacteristic (session_with n)"
    "oldDeviceConnected (session_with n)"
  using assms
  by (auto simp: session_with_def checkVoiceActivity_def store_block_def rms_replicate_0
      SILENCE_THRESHOLD_def SILENCE_DURATION_def eval_defs)

section \<open>The validity gate of \<open>stopRecording\<close>\<close>

text \<open>
  What the sketch does with a recording that is stopped: it sends it to the host, and the
  state becomes \<open>PROCESSING\<close>, if and only if more than 100 samples were stored and at
  least 100 ms have passed since the recording began; otherwise nothing is sent and the
  state becomes \<open>IDLE\<close>.  Either way the recording-active flag is cleared.
\<close>

lemma stopRecording_gate:
  assumes "currentState s = RECORDING"
  shows "currentState (stopRecording now lost s) =
           (if 100 < bufferIndex s \<and> 100 \<le> unat (now - recordingStartTime s) then PROCESSING else IDLE)
       \<and> \<not> recordingActive (stopRecording now lost s)
       \<and> (100 < bufferIndex s \<and> 100 \<le> unat (now - recordingStartTime s) \<longrightarrow>
            audioNotified (stopRecording now lost s) =
              audioNotified (sendAudioToPc lost (s\<lparr>recordingActive := False, manualRecording := False\<rparr>)))
       \<and> (\<not> (100 < bufferIndex s \<and> 100 \<le> unat (now - recordingStartTime s)) \<longrightarrow>
            audioNotified (stopRecording now lost s) = audioNotified s)"
proof -
  obtain d ns where "sendAudioToPc lost (s\<lparr>recordingActive := False, manualRecording := False\<rparr>)
      = (s\<lparr>recordingActive := False, manualRecording := False\<rparr>)\<lparr>deviceConnected := d, audioNotified := ns\<rparr>"
    using sendAudioToPc_frame by blast
  with assms show ?thesis
    by (simp add: stopRecording_def Let_def word_le_nat_alt)
qed

section \<open>The recording buffer\<close>

lemma store_block_index:
  assumes "recordingActive s" "bufferIndex s \<le> maxBufferSize s"
  shows "bufferIndex (store_block b s) = min (maxBufferSize s) (bufferIndex s + length b)"
  using assms by (auto simp: store_block_def Let_def)

lemma store_block_fields [simp]:
  "maxBufferSize (store_block b s) = maxBufferSize s"
  "recordingActive (store_block b s) = recordingActive s"
  by (simp_all add: store_block_def Let_def)

lemma store_block_beyond:
  "maxBufferSize s \<le> i \<Longrightarrow> recordingBuffer (store_block b s) i = recordingBuffer s i"
  by (auto simp: store_block_def Let_def memcpy_samples_def)

lemma store_block_before:
  "i < bufferIndex s \<Longrightarrow> recordingBuffer (store_block b s) i = recordingBuffer s i"
  by (auto simp: store_block_def Let_def memcpy_samples_def)

lemma store_block_content:
  assumes "recordingActive s" "bufferIndex s \<le> maxBufferSize s"
  shows "map (recordingBuffer (store_block b s)) [bufferIndex s ..< bufferIndex (store_block b s)]
           = take (maxBufferSize s - bufferIndex s) b"
proof -
  let ?k = "min (length b) (maxBufferSize s - bufferIndex s)"
  have "map (memcpy_samples (recordingBuffer s) (bufferIndex s) b ?k) [bufferIndex s ..< bufferIndex s + ?k]
      = take ?k b"
    by (rule nth_equalityI) (auto simp: memcpy_samples_def)
  with assms show ?thesis
    by (auto simp: store_block_def Let_def min_def)
qed

lemma checkVoiceActivity_store:
  shows "bufferIndex (snd (checkVoiceActivity (Some b) t s)) = bufferIndex (store_block b s)"
    "recordingBuffer (snd (checkVoiceActivity (Some b) t s)) = recordingBuffer (store_block b s)"
    "maxBufferSize (snd (checkVoiceActivity (Some b) t s)) = maxBufferSize s"
    "recordingActive (snd (checkVoiceActivity (Some b) t s)) = recordingActive s"
  by (auto simp: checkVoiceActivity_def store_block_def Let_def memcpy_samples_def fun_eq_iff)

lemma vad_run_store:
  assumes "recordingActive s" "bufferIndex s \<le> maxBufferSize s"
  shows "bufferIndex (vad_run ticks s) = min (maxBufferSize s) (bufferIndex s + length (concat (map fst ticks)))
       \<and> maxBufferSize (vad_run ticks s) = maxBufferSize s
       \<and> recordingActive (vad_run ticks s)
       \<and> (\<forall>i. maxBufferSize s \<le> i \<or> i < bufferIndex s \<longrightarrow> recordingBuffer (vad_run ticks s) i = recordingBuffer s i)
       \<and> map (recordingBuffer (vad_run ticks s)) [bufferIndex s ..< bufferIndex (vad_run ticks s)]
           = take (maxBufferSize s - bufferIndex s) (concat (map fst ticks))"
  using assms
proof (induction ticks arbitrary: s)
  case Nil
  then show ?case by simp
next
  case (Cons tick ticks)
  obtain b t where tick: "tick = (b, t)" by (cases tick)
  define s1 where "s1 = snd (checkVoiceActivity (Some b) t s)"
  have idx1: "bufferIndex s1 = min (maxBufferSize s) (bufferIndex s + length b)"
    and max1: "maxBufferSize s1 = maxBufferSize s" and act1: "recordingActive s1"
    and mem1: "recordingBuffer s1 = recordingBuffer (store_block b s)"
    using Cons.prems(1,2) by (simp_all add: s1_def checkVoiceActivity_store store_block_index)
  have le1: "bufferIndex s1 \<le> maxBufferSize s1" and ge1: "bufferIndex s \<le> bufferIndex s1"
    using Cons.prems(2) by (simp_all add: idx1 max1)
  note IH = Cons.IH [OF act1 le1]
  from IH have IH_idx: "bufferIndex (vad_run ticks s1) = min (maxBufferSize s1) (bufferIndex s1 + length (concat (map fst ticks)))"
    and IH_frame: "\<And>i. maxBufferSize s1 \<le> i \<or> i < bufferIndex s1 \<Longrightarrow> recordingBuffer (vad_run ticks s1) i = recordingBuffer s1 i"
    and IH_content: "map (recordingBuffer (vad_run ticks s1)) [bufferIndex s1 ..< bufferIndex (vad_run ticks s1)]
           = take (maxBufferSize s1 - bufferIndex s1) (concat (map fst ticks))"
    by blast+
  have run: "vad_run (tick # ticks) s = vad_run ticks s1" by (simp add: tick s1_def)
  have idx: "bufferIndex (vad_run ticks s1) = min (maxBufferSize s) (bufferIndex s + length (concat (map fst (tick # ticks))))"
    using IH_idx Cons.prems(2) by (auto simp: idx1 max1 tick)
  have ge2: "bufferIndex s1 \<le> bufferIndex (vad_run ticks s1)"
    using IH_idx le1 by simp
  have frame: "recordingBuffer (vad_run ticks s1) i = recordingBuffer s i" if "maxBufferSize s \<le> i \<or> i < bufferIndex s" for i
  proof -
    from that ge1 have "maxBufferSize s1 \<le> i \<or> i < bufferIndex s1" by (auto simp: max1)
    with IH_frame have "recordingBuffer (vad_run ticks s1) i = recordingBuffer s1 i" by blast
    also have "\<dots> = recordingBuffer s i"
      using that by (auto simp: mem1 store_block_beyond store_block_before)
    finally show ?thesis .
  qed
  have "map (recordingBuffer (vad_run ticks s1)) [bufferIndex s ..< bufferIndex (vad_run ticks s1)]
      = map (recordingBuffer (vad_run ticks s1)) [bufferIndex s ..< bufferIndex s1]
        @ map (recordingBuffer (vad_run ticks s1)) [bufferIndex s1 ..< bufferIndex (vad_run ticks s1)]"
    using ge1 ge2 by (metis map_append upt_add_eq_append le_Suc_ex)
  also have "map (recordingBuffer (vad_run ticks s1)) [bufferIndex s ..< bufferIndex s1]
      = map (recordingBuffer s1) [bufferIndex s ..< bufferIndex s1]"
    using IH_frame by auto
  also have "\<dots> = take (maxBufferSize s - bufferIndex s) b"
    using store_block_content [OF Cons.prems(1,2), of b] Cons.prems(1,2)
    by (simp add: mem1 idx1 store_block_index)
  also have "map (recordingBuffer (vad_run ticks s1)) [bufferIndex s1 ..< bufferIndex (vad_run ticks s1)]
      = take (maxBufferSize s - bufferIndex s1) (concat (map fst ticks))"
    using IH_content by (simp only: max1)
  finally have content: "map (recordingBuffer (vad_run ticks s1)) [bufferIndex s ..< bufferIndex (vad_run ticks s1)]
      = take (maxBufferSize s - bufferIndex s) (concat (map fst (tick # ticks)))"
    using Cons.prems(2) by (auto simp: tick idx1 min_def take_all)
  show ?case
    unfolding run using idx IH frame content by (simp add: max1)
qed
lemma small_device_fields:
  "currentState small_device = IDLE" "bluetoothConnected small_device" "maxBufferSize small_device = 5"
  by (simp_all add: small_device_def eval_defs)

lemma startRecording_fields:
  assumes "currentState s = IDLE" "bluetoothConnected s"
  shows "recordingActive (startRecording m t1 t2 s)" "bufferIndex (startRecording m t1 t2 s) = 0"
    "maxBufferSize (startRecording m t1 t2 s) = maxBufferSize s"
    "recordingBuffer (startRecording m t1 t2 s) = recordingBuffer s"
  using assms by (simp_all add: startRecording_def)

lemma vad_run_index:
  assumes "recordingActive s" "bufferIndex s \<le> maxBufferSize s"
  shows "bufferIndex (vad_run ticks s) = min (maxBufferSize s) (bufferIndex s + length (concat (map fst ticks)))"
  using vad_run_store [OF assms] by blast

lemma vad_run_beyond:
  assumes "recordingActive s" "bufferIndex s \<le> maxBufferSize s" "maxBufferSize s \<le> i"
  shows "recordingBuffer (vad_run ticks s) i = recordingBuffer s i"
  using vad_run_store [OF assms(1,2)] assms(3) by blast

lemma vad_run_content:
  assumes "recordingActive s" "bufferIndex s \<le> maxBufferSize s"
  shows "map (recordingBuffer (vad_run ticks s)) [bufferIndex s ..< bufferIndex (vad_run ticks s)]
           = take (maxBufferSize s - bufferIndex s) (concat (map fst ticks))"
  using vad_run_store [OF assms] by blast

text \<open>
  C2.  From the start of a session on, whatever blocks the ticks deliver, loud or silent:
  the write index is the smaller of the capacity and the total number of samples delivered,
  so it never exceeds the capacity; memory from index \<open>maxBufferSize\<close> on is never
  written; and the buffer up to the write index holds the delivered samples in order, cut
  off at the capacity.
\<close>

theorem ring_store_truncation:
  assumes "currentState s0 = IDLE" "bluetoothConnected s0" 
  shows "bufferIndex (vad_run ticks (startRecording manual t1 t2 s0))
           = min (maxBufferSize s0) (sum_list (map (\<lambda>(b, t). length b) ticks))
       \<and> bufferIndex (vad_run ticks (startRecording manual t1 t2 s0)) \<le> maxBufferSize s0
       \<and> (\<forall>i. maxBufferSize s0 \<le> i \<longrightarrow>
             recordingBuffer (vad_run ticks (startRecording manual t1 t2 s0)) i = recordingBuffer s0 i)
       \<and> map (recordingBuffer (vad_run ticks (startRecording manual t1 t2 s0)))
             [0 ..< bufferIndex (vad_run ticks (startRecording manual t1 t2 s0))]
           = take (maxBufferSize s0) (concat (map fst ticks))"
proof -
  let ?s = "startRecording manual t1 t2 s0"
  have len: "length (concat (map fst ticks)) = sum_list (map (\<lambda>(b, t). length b) ticks)"
    by (induction ticks) auto
  have start: "recordingActive ?s" "bufferIndex ?s \<le> maxBufferSize ?s"
    and fields: "bufferIndex ?s = 0" "maxBufferSize ?s = maxBufferSize s0" "recordingBuffer ?s = recordingBuffer s0"
    using assms by (simp_all add: startRecording_fields)
  have idx: "bufferIndex (vad_run ticks ?s) = min (maxBufferSize s0) (sum_list (map (\<lambda>(b, t). length b) ticks))"
    using vad_run_index [OF start, of ticks] by (simp add: fields len)
  have beyond: "recordingBuffer (vad_run ticks ?s) i = recordingBuffer s0 i" if "maxBufferSize s0 \<le> i" for i
    using vad_run_beyond [OF start, of i ticks] that by (simp add: fields)
  have content: "map (recordingBuffer (vad_run ticks ?s)) [0 ..< bufferIndex (vad_run ticks ?s)]
      = take (maxBufferSize s0) (concat (map fst ticks))"
    using vad_run_content [OF start, of ticks] by (simp only: fields minus_nat.diff_0)
  from idx have "bufferIndex (vad_run ticks ?s) \<le> maxBufferSize s0" by simp
  with idx beyond content show ?thesis by blast
qed

theorem ring_store_truncation_witness:
  "bufferIndex (vad_run [([1, 2, 3], 100), ([4, 5, 6], 200)] (startRecording False 50 50 small_device)) = 5
   \<and> map (recordingBuffer (vad_run [([1, 2, 3], 100), ([4, 5, 6], 200)] (startRecording False 50 50 small_device)))
        [0 ..< 5] = [1, 2, 3, 4, 5]
   \<and> recordingBuffer (vad_run [([1, 2, 3], 100), ([4, 5, 6], 200)] (startRecording False 50 50 small_device)) 5
        = recordingBuffer small_device 5"
proof -
  let ?s = "vad_run [([1, 2, 3], 100), ([4, 5, 6], 200)] (startRecording False 50 50 small_device)"
  note inst = ring_store_truncation [OF small_device_fields(1,2),
      of "[([1, 2, 3], 100), ([4, 5, 6], 200)]" False 50 50]
  have idx: "bufferIndex ?s = 5"
    using inst [THEN conjunct1] by (simp del: vad_run.simps add: small_device_fields)
  have "map (recordingBuffer ?s) [0 ..< bufferIndex ?s] = [1, 2, 3, 4, 5]"
    using inst [THEN conjunct2, THEN conjunct2, THEN conjunct2]
    by (simp del: vad_run.simps map_eq_Cons_conv add: small_device_fields)
  then have content: "map (recordingBuffer ?s) [0 ..< 5] = [1, 2, 3, 4, 5]"
    by (simp only: idx)
  have "recordingBuffer ?s 5 = recordingBuffer small_device 5"
    using inst [THEN conjunct2, THEN conjunct2, THEN conjunct1]
    by (simp del: vad_run.simps add: small_device_fields)
  with idx content show ?thesis by blast
qed

text \<open>
  The older sketch does not keep the write index within the capacity: after 157 loud blocks
  of 1024 samples its index is 160768, with a buffer of 160000 samples.
\<close>

lemma checkVoiceActivity_v1_index:
  assumes "recordingActive s" "bufferIndex s < maxBufferSize s" "b \<noteq> []" "SILENCE_THRESHOLD < sint (rms b)"
  shows "bufferIndex (snd (checkVoiceActivity_v1 (Some b) t s)) = bufferIndex s + length b"
    "recordingActive (snd (checkVoiceActivity_v1 (Some b) t s))"
    "maxBufferSize (snd (checkVoiceActivity_v1 (Some b) t s)) = maxBufferSize s"
  using assms by (simp_all add: checkVoiceActivity_v1_def Let_def)

lemma checkVoiceActivity_v1_repeat:
  assumes "recordingActive s" "b \<noteq> []" "SILENCE_THRESHOLD < sint (rms b)"
    "bufferIndex s + n * length b < maxBufferSize s"
  shows "bufferIndex (((\<lambda>s. snd (checkVoiceActivity_v1 (Some b) t s)) ^^ Suc n) s) = bufferIndex s + Suc n * length b
    \<and> recordingActive (((\<lambda>s. snd (checkVoiceActivity_v1 (Some b) t s)) ^^ Suc n) s)
    \<and> maxBufferSize (((\<lambda>s. snd (checkVoiceActivity_v1 (Some b) t s)) ^^ Suc n) s) = maxBufferSize s"
  using assms(4)
proof (induction n)
  case 0
  then show ?case using assms(1-3) by (simp add: checkVoiceActivity_v1_index)
next
  case (Suc n)
  let ?f = "\<lambda>s. snd (checkVoiceActivity_v1 (Some b) t s)"
  from Suc.prems have "bufferIndex s + n * length b < maxBufferSize s" by simp
  from Suc.IH [OF this] have IH: "bufferIndex ((?f ^^ Suc n) s) = bufferIndex s + Suc n * length b"
    "recordingActive ((?f ^^ Suc n) s)" "maxBufferSize ((?f ^^ Suc n) s) = maxBufferSize s" by blast+
  have lt: "bufferIndex ((?f ^^ Suc n) s) < maxBufferSize ((?f ^^ Suc n) s)"
    using Suc.prems IH by simp
  have "(?f ^^ Suc (Suc n)) s = ?f ((?f ^^ Suc n) s)" by simp
  then show ?case
    using checkVoiceActivity_v1_index [OF IH(2) lt assms(2,3), of t] IH by (simp del: funpow.simps)
qed

lemma checkVoiceActivity_v1_overrun:
  "bufferIndex (((\<lambda>s. snd (checkVoiceActivity_v1 (Some (replicate 1024 1000)) 0 s)) ^^ 157) v1_device) = 160768
   \<and> maxBufferSize (((\<lambda>s. snd (checkVoiceActivity_v1 (Some (replicate 1024 1000)) 0 s)) ^^ 157) v1_device) = 160000"
proof -
  have "sint (rms (replicate 1024 1000)) = 1000"
    by (simp add: rms_def sum_list_replicate)
  then have loud: "SILENCE_THRESHOLD < sint (rms (replicate 1024 1000))"
    by (simp add: SILENCE_THRESHOLD_def)
  have "recordingActive v1_device" "replicate 1024 (1000 :: sample) \<noteq> []"
    "bufferIndex v1_device + 156 * length (replicate 1024 (1000 :: sample)) < maxBufferSize v1_device"
    by (simp_all add: v1_device_def initial_device_def)
  from checkVoiceActivity_v1_repeat [OF this(1,2) loud this(3), of 0] show ?thesis
    by (simp del: funpow.simps add: v1_device_def initial_device_def)
qed

section \<open>Hysteresis of the voice-activity flag\<close>

lemma store_block_vad [simp]:
  "speechDetected (store_block b s) = speechDetected s"
  "lastSpeechTime (store_block b s) = lastSpeechTime s"
  by (simp_all add: store_block_def Let_def)

lemma vad_run_append: "vad_run (xs @ ys) s = vad_run ys (vad_run xs s)"
  by (induction xs arbitrary: s) auto

lemma vad_loud:
  assumes "b \<noteq> []" "SILENCE_THRESHOLD < sint (rms b)"
  shows "fst (checkVoiceActivity (Some b) t s)"
    "speechDetected (snd (checkVoiceActivity (Some b) t s))"
    "lastSpeechTime (snd (checkVoiceActivity (Some b) t s)) = t"
  using assms by (simp_all add: checkVoiceActivity_def)

lemma vad_quiet:
  assumes "b \<noteq> []" "\<not> SILENCE_THRESHOLD < sint (rms b)"
  shows "speechDetected (snd (checkVoiceActivity (Some b) t s))
           \<longleftrightarrow> speechDetected s \<and> \<not> SILENCE_DURATION < t - lastSpeechTime s"
    "lastSpeechTime (snd (checkVoiceActivity (Some b) t s)) = lastSpeechTime s"
    "fst (checkVoiceActivity (Some b) t s) = speechDetected (snd (checkVoiceActivity (Some b) t s))"
  using assms by (auto simp: checkVoiceActivity_def Let_def)

lemma vad_run_quiet:
  assumes "\<forall>(b, t) \<in> set qs. b \<noteq> [] \<and> \<not> SILENCE_THRESHOLD < sint (rms b)"
  shows "lastSpeechTime (vad_run qs s) = lastSpeechTime s
       \<and> (speechDetected (vad_run qs s)
            \<longleftrightarrow> speechDetected s \<and> (\<forall>(b, t) \<in> set qs. \<not> SILENCE_DURATION < t - lastSpeechTime s))"
  using assms
proof (induction qs arbitrary: s)
  case Nil
  show ?case by simp
next
  case (Cons q qs)
  obtain b t where q: "q = (b, t)" by (cases q)
  with Cons.prems have b: "b \<noteq> []" "\<not> SILENCE_THRESHOLD < sint (rms b)" by auto
  from Cons.prems have rest: "\<forall>(b, t) \<in> set qs. b \<noteq> [] \<and> \<not> SILENCE_THRESHOLD < sint (rms b)" by auto
  show ?case
    using Cons.IH [OF rest, of "snd (checkVoiceActivity (Some b) t s)"] vad_quiet [OF b, of t s]
    by (auto simp: q)
qed

text \<open>
  The level is what the sketch keeps in its \<open>int16_t rms\<close>.  The mean of a block whose
  samples are all \<open>-32768\<close> is 32768, which that variable holds as \<open>-32768\<close>.
\<close>

lemma rms_saturated: "sint (rms (replicate (Suc n) (- 32768))) = - 32768"
proof -
  have "sint (- 32768 :: sample) = - 32768" by simp
  then have "sum_list (map (\<lambda>x. \<bar>sint x\<bar>) (replicate (Suc n) (- 32768 :: sample))) = int (Suc n) * 32768"
    by (simp add: sum_list_replicate)
  then have "rms (replicate (Suc n) (- 32768)) = word_of_int 32768"
    by (simp only: rms_def length_replicate nonzero_mult_div_cancel_left)
  then show ?thesis by simp
qed

text \<open>
  C3.  A block whose level, as \<open>rms\<close> holds it, is above \<open>SILENCE_THRESHOLD\<close> sets \<open>speechDetected\<close> in the
  same call, whatever came before.  After such a block at time \<open>t\<close>, followed by blocks
  at or below the threshold, \<open>speechDetected\<close> is still set exactly when none of those
  blocks arrived more than \<open>SILENCE_DURATION\<close> after \<open>t\<close>, the difference taken on the
  32-bit millisecond counter: it holds through the silence, and falls at the first silent
  block later than that.
\<close>

theorem vad_hysteresis:
  "(b \<noteq> [] \<and> SILENCE_THRESHOLD < sint (rms b) \<longrightarrow>
      fst (checkVoiceActivity (Some b) t s)
      \<and> speechDetected (snd (checkVoiceActivity (Some b) t s))
      \<and> speechDetected (vad_run (pre @ [(b, t)]) s))
   \<and> (b \<noteq> [] \<and> SILENCE_THRESHOLD < sint (rms b)
      \<and> (\<forall>(b', t') \<in> set qs. b' \<noteq> [] \<and> sint (rms b') \<le> SILENCE_THRESHOLD) \<longrightarrow>
      (speechDetected (vad_run (pre @ (b, t) # qs) s)
         \<longleftrightarrow> (\<forall>(b', t') \<in> set qs. unat (t' - t) \<le> unat SILENCE_DURATION)))"
proof -
  have run: "vad_run (pre @ (b, t) # qs) s
      = vad_run qs (snd (checkVoiceActivity (Some b) t (vad_run pre s)))" for qs
    by (simp add: vad_run_append)
  {
    assume b: "b \<noteq> []" "SILENCE_THRESHOLD < sint (rms b)"
      and qs: "\<forall>(b', t') \<in> set qs. b' \<noteq> [] \<and> sint (rms b') \<le> SILENCE_THRESHOLD"
    from qs have "\<forall>(b', t') \<in> set qs. b' \<noteq> [] \<and> \<not> SILENCE_THRESHOLD < sint (rms b')"
      by (auto simp: not_less)
    from vad_run_quiet [OF this, of "snd (checkVoiceActivity (Some b) t (vad_run pre s))"]
    have "speechDetected (vad_run (pre @ (b, t) # qs) s)
         \<longleftrightarrow> (\<forall>(b', t') \<in> set qs. unat (t' - t) \<le> unat SILENCE_DURATION)"
      using vad_loud [OF b] by (simp add: run word_less_nat_alt not_less)
  }
  moreover have "speechDetected (vad_run (pre @ [(b, t)]) s)"
    if "b \<noteq> []" "SILENCE_THRESHOLD < sint (rms b)"
    using vad_loud [OF that] run [of "[]"] by simp
  ultimately show ?thesis using vad_loud by blast
qed

theorem vad_hysteresis_witness:
  "speechDetected (vad_run ([([0, 0], 1000)] @ [([1000, 1000], 2000)]) connected_device)
   \<and> speechDetected
       (vad_run ([([0, 0], 1000)] @ ([1000, 1000], 2000) # [([0, 0], 2500), ([0, 0], 3000)]) connected_device)
   \<and> \<not> speechDetected
       (vad_run ([([0, 0], 1000)] @ ([1000, 1000], 2000) # [([0, 0], 2500), ([0, 0], 3001)]) connected_device)"
  using vad_hysteresis [where b = "[1000, 1000]" and t = 2000 and s = connected_device
        and pre = "[([0, 0], 1000)]" and qs = "[([0, 0], 2500), ([0, 0], 3000)]"]
    vad_hysteresis [where b = "[1000, 1000]" and t = 2000 and s = connected_device
        and pre = "[([0, 0], 1000)]" and qs = "[([0, 0], 2500), ([0, 0], 3001)]"]
  by (simp del: vad_run.simps add: rms_def SILENCE_THRESHOLD_def SILENCE_DURATION_def)

section \<open>Framing of the transfer\<close>

lemma store_bytes_eq: "store_bytes mem count = map (buffer_byte mem) [0 ..< 2 * count]"
proof (induction count)
  case 0
  show ?case by (simp add: store_bytes_def)
next
  case (Suc c)
  have "[0 ..< 2 * Suc c] = [0 ..< 2 * c] @ [2 * c, Suc (2 * c)]"
    by simp
  then show ?case using Suc
    by (simp add: store_bytes_def buffer_byte_def sample_bytes_def)
qed

lemma concat_chunks:
  "concat (map (\<lambda>k. take c (drop (c * k) xs)) [0 ..< m]) = take (c * m) xs"
proof (induction m)
  case 0
  show ?case by simp
next
  case (Suc m)
  have "take (c * m) xs @ take c (drop (c * m) xs) = take (c * m + c) xs"
    by (simp add: take_add)
  with Suc show ?case by (simp add: add.commute)
qed

lemma concat_payload_chunks: "concat (payload_chunks bytes) = bytes"
proof -
  have "length bytes \<le> chunkSize * ((length bytes + chunkSize - 1) div chunkSize)"
    by (simp add: chunkSize_def)
  then show ?thesis
    by (simp add: payload_chunks_def concat_chunks)
qed

lemma length_payload_chunks: "length (payload_chunks bytes) = (length bytes + 17) div 18"
  by (simp add: payload_chunks_def chunkSize_def)

lemma chunk_at_eq:
  "i < n \<Longrightarrow> i = chunkSize * k \<Longrightarrow>
     map (buffer_byte mem) [i ..< i + min chunkSize (n - i)] = chunk_at mem n k"
  by (auto simp: chunk_at_def drop_map take_map min_def)

lemma sendChunks_trace:
  assumes "deviceConnected s" "bluetoothConnected s" "i = chunkSize * j"
    "\<forall>k. lost = Some k \<longrightarrow> j \<le> k"
  shows "audioNotified (sendChunks lost n i s)
           = audioNotified s @ map (chunk_at (recordingBuffer s) n) [j ..< last_chunk lost n]"
  using assms
proof (induction lost n i s arbitrary: j rule: sendChunks.induct)
  case (1 lost n i s)
  let ?m = "(n + chunkSize - 1) div chunkSize"
  show ?case
  proof (cases "i < n")
    case False
    with "1.prems"(3) have "?m \<le> j" by (simp add: chunkSize_def)
    then have "last_chunk lost n \<le> j" by (auto simp: last_chunk_def min_def split: option.splits)
    with False show ?thesis by (simp add: sendChunks.simps)
  next
    case True
    with "1.prems"(3) have jm: "j < ?m" by (simp add: chunkSize_def)
    have idiv: "i div chunkSize = j" using "1.prems"(3) by (simp add: chunkSize_def)
    show ?thesis
    proof (cases "lost = Some j")
      case True
      with \<open>i < n\<close> have "sendChunks lost n i s = onDisconnect s"
        by (subst sendChunks.simps) (simp add: idiv onDisconnect_def Let_def)
      moreover from True jm have "last_chunk lost n = j" by (simp add: last_chunk_def)
      ultimately show ?thesis by (simp add: onDisconnect_def)
    next
      case False
      define chunk where "chunk = map (buffer_byte (recordingBuffer s)) [i ..< i + min chunkSize (n - i)]"
      from False \<open>i < n\<close> "1.prems"(1,2)
      have eq: "sendChunks lost n i s = sendChunks lost n (i + chunkSize) (notifyAudio chunk s)"
        by (subst sendChunks.simps) (simp add: idiv chunk_def Let_def)
      have s1: "s = (if lost = Some (i div chunkSize) then onDisconnect s else s)"
        using False by (simp add: idiv)
      have conn: "\<not> (\<not> deviceConnected s \<or> \<not> bluetoothConnected s)" using "1.prems"(1,2) by simp
      have next_ok: "\<forall>k. lost = Some k \<longrightarrow> Suc j \<le> k"
        using "1.prems"(4) False by (auto simp: le_less Suc_le_eq)
      have "audioNotified (sendChunks lost n (i + chunkSize) (notifyAudio chunk s))
          = audioNotified (notifyAudio chunk s)
            @ map (chunk_at (recordingBuffer (notifyAudio chunk s)) n) [Suc j ..< last_chunk lost n]"
        using "1.prems"(1,2,3) next_ok
        by (intro "1.IH" [OF \<open>i < n\<close> s1 conn refl chunk_def]) (simp_all add: notifyAudio_def)
      moreover have "chunk = chunk_at (recordingBuffer s) n j"
        unfolding chunk_def using \<open>i < n\<close> "1.prems"(3) by (rule chunk_at_eq)
      moreover have "j < last_chunk lost n"
        using jm next_ok by (auto simp: last_chunk_def split: option.splits)
      ultimately show ?thesis
        by (simp add: eq notifyAudio_def upt_conv_Cons)
    qed
  qed
qed

lemma base256_digits:
  fixes x :: nat
  assumes "x < 2 ^ 32"
  shows "x mod 256 + 256 * ((x div 2 ^ 8) mod 256) + 65536 * ((x div 2 ^ 16) mod 256)
      + 16777216 * (x div 2 ^ 24) = x"
proof -
  define a where "a = x div 256"
  define b where "b = a div 256"
  define c where "c = b div 256"
  have x: "x = x mod 256 + 256 * a" by (simp add: a_def)
  have a: "a = a mod 256 + 256 * b" by (simp add: b_def)
  have b: "b = b mod 256 + 256 * c" by (simp add: c_def)
  have b_eq: "x div 2 ^ 16 = b" by (simp add: a_def b_def div_mult2_eq)
  have c_eq: "x div 2 ^ 24 = c" by (simp add: a_def b_def c_def div_mult2_eq)
  have "x mod 256 + 256 * (a mod 256) + 65536 * (b mod 256) + 16777216 * c
      = x mod 256 + 256 * (a mod 256 + 256 * (b mod 256 + 256 * c))"
    by (simp add: algebra_simps)
  also have "\<dots> = x mod 256 + 256 * (a mod 256 + 256 * b)" using b by simp
  also have "\<dots> = x mod 256 + 256 * a" using a by simp
  also have "\<dots> = x" using x by simp
  finally show ?thesis
    unfolding b_eq c_eq by (simp add: a_def)
qed

lemma u32_of_le_le32: "u32_of_le (le32 w) = unat w"
proof -
  have b0: "unat (ucast w :: byte) = unat w mod 256"
    by (simp add: unsigned_ucast_eq take_bit_eq_mod)
  have b: "unat (ucast (drop_bit n w) :: byte) = (unat w div 2 ^ n) mod 256" for n
    unfolding unsigned_ucast_eq unat_drop_bit_eq by (simp add: take_bit_eq_mod drop_bit_eq_div)
  have lt: "unat w < 2 ^ 32" using unsigned_less [of w] by simp
  then have top: "(unat w div 2 ^ 24) mod 256 = unat w div 2 ^ 24"
    by (simp add: less_mult_imp_div_less)
  have nth: "le32 w ! 0 = ucast w" "le32 w ! 1 = ucast (drop_bit 8 w)"
    "le32 w ! 2 = ucast (drop_bit 16 w)" "le32 w ! 3 = ucast (drop_bit 24 w)"
    by (simp_all add: le32_def)
  have "u32_of_le (le32 w) = unat w mod 256 + 256 * ((unat w div 2 ^ 8) mod 256)
      + 65536 * ((unat w div 2 ^ 16) mod 256) + 16777216 * ((unat w div 2 ^ 24) mod 256)"
    by (simp only: u32_of_le_def nth b0 b)
  also have "\<dots> = unat w"
    unfolding top by (rule base256_digits [OF lt])
  finally show ?thesis .
qed

lemma length_le32: "length (le32 w) = 4"
  by (simp add: le32_def)

lemma decode_headerData:
  assumes "n < 2 ^ 32"
  shows "decode_header (headerData n) = Some (n, SAMPLE_RATE)"
proof -
  have len: "length (headerData n) = 9" and tag: "headerData n ! 0 = 0x41"
    by (simp_all add: headerData_def length_le32)
  have fields: "take 4 (drop 1 (headerData n)) = le32 (of_nat n)"
    "take 4 (drop 5 (headerData n)) = le32 (of_nat SAMPLE_RATE)"
    by (simp_all add: headerData_def length_le32)
  have "unat (of_nat n :: 32 word) = n" using assms by (simp add: unat_of_nat)
  moreover have "unat (of_nat SAMPLE_RATE :: 32 word) = SAMPLE_RATE" by (simp add: SAMPLE_RATE_def)
  ultimately show ?thesis
    unfolding decode_header_def fields u32_of_le_le32 using len tag by simp
qed

lemma sendChunks_disconnected:
  "\<not> deviceConnected s \<or> \<not> bluetoothConnected s \<Longrightarrow>
     audioNotified (sendChunks lost n i s) = audioNotified s"
  by (subst sendChunks.simps) (auto simp: Let_def onDisconnect_def)

lemma sendAudioToPc_trace:
  "audioNotified (sendAudioToPc lost s) =
     (if \<not> bluetoothConnected s \<or> \<not> pAudioCharacteristic s then audioNotified s
      else if \<not> deviceConnected s then audioNotified s @ [headerData (bufferIndex s)]
      else audioNotified s @ headerData (bufferIndex s) #
             map (chunk_at (recordingBuffer s) ((bufferIndex s * 2) mod 2 ^ 32))
               [0 ..< last_chunk lost ((bufferIndex s * 2) mod 2 ^ 32)])"
proof -
  let ?s = "notifyAudio (headerData (bufferIndex s)) s"
  have "audioNotified (sendChunks lost n 0 ?s)
      = audioNotified ?s @ map (chunk_at (recordingBuffer ?s) n) [0 ..< last_chunk lost n]"
    if "deviceConnected s" "bluetoothConnected s" for n
    using that by (intro sendChunks_trace) (simp_all add: notifyAudio_def)
  moreover have "audioNotified (sendChunks lost n 0 ?s) = audioNotified ?s"
    if "\<not> deviceConnected s" for n
    using that by (intro sendChunks_disconnected) (simp add: notifyAudio_def)
  ultimately show ?thesis
    by (simp add: sendAudioToPc_def Let_def) (simp add: notifyAudio_def)
qed

lemma payload_chunks_store:
  "payload_chunks (store_bytes mem count) = map (chunk_at mem (2 * count)) [0 ..< (2 * count + chunkSize - 1) div chunkSize]"
  by (simp add: payload_chunks_def store_bytes_eq chunk_at_def)

text \<open>Whatever the heap, the capacity is at most 240000 samples, so byte counts fit \<open>size_t\<close>.\<close>

lemma initAudioBuffer_bound: "fst (initAudioBuffer freeHeap first second) \<le> 240000"
  by (auto simp: initAudioBuffer_def SAMPLE_RATE_def MAX_AUDIO_DURATION_def Let_def min_def)

text \<open>
  C5.  On a link that stays up, \<open>sendAudioToPc\<close> notifies the header and then the
  payload chunks, nothing else.  The header has nine bytes, begins with \<open>A\<close>, and decodes
  to the sample count and the sample rate.  The chunks, concatenated in order, are the raw
  little-endian bytes of the stored samples; there are \<open>ceil(byteLength / chunkSize)\<close> of
  them, none longer than \<open>chunkSize\<close>.  The bound on \<open>bufferIndex\<close> says that the byte
  count fits \<open>size_t\<close>; it holds for every capacity that \<open>initAudioBuffer\<close> yields.
\<close>

theorem transport_framing:
  assumes "bluetoothConnected s" "pAudioCharacteristic s" "deviceConnected s" "bufferIndex s < 2 ^ 31"
  shows "audioNotified (sendAudioToPc None s)
           = audioNotified s @ headerData (bufferIndex s)
               # payload_chunks (store_bytes (recordingBuffer s) (bufferIndex s))
       \<and> length (headerData (bufferIndex s)) = 9
       \<and> headerData (bufferIndex s) ! 0 = of_char CHR ''A''
       \<and> decode_header (headerData (bufferIndex s)) = Some (bufferIndex s, SAMPLE_RATE)
       \<and> concat (drop (Suc (length (audioNotified s))) (audioNotified (sendAudioToPc None s)))
           = store_bytes (recordingBuffer s) (bufferIndex s)
       \<and> length (drop (Suc (length (audioNotified s))) (audioNotified (sendAudioToPc None s)))
           = (2 * bufferIndex s + chunkSize - 1) div chunkSize
       \<and> (\<forall>c \<in> set (drop (Suc (length (audioNotified s))) (audioNotified (sendAudioToPc None s))).
             length c \<le> chunkSize)"
proof -
  let ?payload = "payload_chunks (store_bytes (recordingBuffer s) (bufferIndex s))"
  from assms(4) have n: "(bufferIndex s * 2) mod 2 ^ 32 = 2 * bufferIndex s" by simp
  have trace: "audioNotified (sendAudioToPc None s) = audioNotified s @ headerData (bufferIndex s) # ?payload"
    using assms(1-3) unfolding sendAudioToPc_trace n by (simp add: payload_chunks_store last_chunk_def)
  have rest: "drop (Suc (length (audioNotified s))) (audioNotified (sendAudioToPc None s)) = ?payload"
    by (simp add: trace)
  have hdr: "length (headerData (bufferIndex s)) = 9" "headerData (bufferIndex s) ! 0 = of_char CHR ''A''"
    by (simp_all add: headerData_def le32_def)
  have dec: "decode_header (headerData (bufferIndex s)) = Some (bufferIndex s, SAMPLE_RATE)"
    using assms(4) by (intro decode_headerData) simp
  have len: "length ?payload = (2 * bufferIndex s + chunkSize - 1) div chunkSize"
    by (simp add: payload_chunks_store)
  have small: "\<forall>c \<in> set ?payload. length c \<le> chunkSize"
    by (auto simp: payload_chunks_def)
  show ?thesis
    unfolding rest using trace hdr dec len small concat_payload_chunks by blast
qed

theorem transport_framing_witness:
  "decode_header (headerData (bufferIndex (session_with 1000))) = Some (1000, 16000)
   \<and> length (drop 1 (audioNotified (sendAudioToPc None (session_with 1000)))) = 112
   \<and> concat (drop 1 (audioNotified (sendAudioToPc None (session_with 1000))))
       = store_bytes (recordingBuffer (session_with 1000)) 1000"
proof -
  have "bluetoothConnected (session_with 1000)" "pAudioCharacteristic (session_with 1000)"
    "deviceConnected (session_with 1000)" "bufferIndex (session_with 1000) < 2 ^ 31"
    by (simp_all add: session_with_fields session_with_link)
  note inst = transport_framing [OF this]
  have "decode_header (headerData (bufferIndex (session_with 1000))) = Some (1000, 16000)"
    using inst [THEN conjunct2, THEN conjunct2, THEN conjunct2, THEN conjunct1]
    by (simp add: session_with_fields SAMPLE_RATE_def)
  moreover have "length (drop 1 (audioNotified (sendAudioToPc None (session_with 1000)))) = 112"
    using inst [THEN conjunct2, THEN conjunct2, THEN conjunct2, THEN conjunct2, THEN conjunct2, THEN conjunct1]
    by (simp add: session_with_fields chunkSize_def)
  moreover have "concat (drop 1 (audioNotified (sendAudioToPc None (session_with 1000))))
       = store_bytes (recordingBuffer (session_with 1000)) 1000"
    using inst [THEN conjunct2, THEN conjunct2, THEN conjunct2, THEN conjunct2, THEN conjunct1]
    by (simp add: session_with_fields)
  ultimately show ?thesis by blast
qed

section \<open>Loss of the link\<close>

lemma stopRecording_idle:
  "currentState s \<noteq> RECORDING \<Longrightarrow> stopRecording t lost s = s"
  by (simp add: stopRecording_def)

lemma handleRecordingState_inactive:
  assumes "currentState s \<noteq> RECORDING" "\<not> recordingActive s"
  shows "audioNotified (handleRecordingState t0 rd tv ts lost s) = audioNotified s"
    and "bufferIndex (handleRecordingState t0 rd tv ts lost s) = bufferIndex s"
    and "recordingBuffer (handleRecordingState t0 rd tv ts lost s) = recordingBuffer s"
    and "currentState (handleRecordingState t0 rd tv ts lost s) = currentState s"
  using assms
  by (auto simp: handleRecordingState_def Let_def stopRecording_idle checkVoiceActivity_def
      store_block_def split: option.splits prod.splits if_splits)

lemma take_upt_min: "take k [0 ..< m] = [0 ..< min k m]"
  by (cases "k \<le> m") (simp_all add: min_def)

lemma sendAudioToPc_full_length:
  assumes "bluetoothConnected s" "pAudioCharacteristic s" "deviceConnected s" "bufferIndex s < 2 ^ 31"
  shows "length (audioNotified (sendAudioToPc None s))
           = length (audioNotified s) + 1 + (2 * bufferIndex s + 17) div 18"
proof -
  from assms(4) have n: "(bufferIndex s * 2) mod 2 ^ 32 = 2 * bufferIndex s" by simp
  show ?thesis
    using assms(1-3) unfolding sendAudioToPc_trace n by (simp add: last_chunk_def chunkSize_def)
qed

text \<open>
  C7.  When the link that \<open>checkBluetoothConnection\<close> had seen up goes down, the next
  \<open>checkBluetoothConnection\<close> moves the device to \<open>BLUETOOTH_DISCONNECTED\<close> from
  whatever state it was in and clears the recording-active flag and the connected flag,
  without notifying anything.  From then on \<open>stopRecording\<close> and \<open>sendAudioToPc\<close> do
  nothing, a tick of the recording handler notifies nothing, and no block is stored: the
  session's buffer is not transported.  A disconnect that arrives while a transfer is
  running, before chunk \<open>k\<close> is tested, cuts the transfer after the header and the
  first \<open>k\<close> chunks: what is notified is a prefix of the full transfer, with at most
  \<open>k\<close> payload chunks.
\<close>

theorem disconnect_abort:
  "(oldDeviceConnected s \<longrightarrow>
      currentState (checkBluetoothConnection (onDisconnect s)) = BLUETOOTH_DISCONNECTED
      \<and> \<not> recordingActive (checkBluetoothConnection (onDisconnect s))
      \<and> \<not> bluetoothConnected (checkBluetoothConnection (onDisconnect s))
      \<and> audioNotified (checkBluetoothConnection (onDisconnect s)) = audioNotified s
      \<and> stopRecording ts lost (checkBluetoothConnection (onDisconnect s))
           = checkBluetoothConnection (onDisconnect s)
      \<and> sendAudioToPc lost (checkBluetoothConnection (onDisconnect s))
           = checkBluetoothConnection (onDisconnect s)
      \<and> audioNotified (handleRecordingState t0 rd tv ts lost (checkBluetoothConnection (onDisconnect s)))
           = audioNotified s
      \<and> store_block b (checkBluetoothConnection (onDisconnect s))
           = checkBluetoothConnection (onDisconnect s))
   \<and> audioNotified (sendAudioToPc (Some k) s)
        = take (length (audioNotified s) + 1 + k) (audioNotified (sendAudioToPc None s))
   \<and> length (audioNotified (sendAudioToPc (Some k) s)) \<le> length (audioNotified s) + 1 + k"
proof -
  let ?d = "checkBluetoothConnection (onDisconnect s)"
  have d: "currentState ?d = BLUETOOTH_DISCONNECTED" "\<not> recordingActive ?d" "\<not> bluetoothConnected ?d"
    "audioNotified ?d = audioNotified s" if "oldDeviceConnected s"
    using that by (simp_all add: checkBluetoothConnection_def onDisconnect_def)
  have stop: "stopRecording ts lost ?d = ?d" if "oldDeviceConnected s"
    using d(1) [OF that] by (simp add: stopRecording_idle)
  have send: "sendAudioToPc lost ?d = ?d" if "oldDeviceConnected s"
    using d(3) [OF that] by (simp add: sendAudioToPc_def)
  have tick: "audioNotified (handleRecordingState t0 rd tv ts lost ?d) = audioNotified s" if "oldDeviceConnected s"
    using d [OF that] by (simp add: handleRecordingState_inactive)
  have store: "store_block b ?d = ?d" if "oldDeviceConnected s"
    using d(2) [OF that] by (simp add: store_block_def)
  have prefix: "audioNotified (sendAudioToPc (Some k) s)
        = take (length (audioNotified s) + 1 + k) (audioNotified (sendAudioToPc None s))"
    by (simp add: sendAudioToPc_trace last_chunk_def take_map take_upt_min)
  have "length (audioNotified (sendAudioToPc (Some k) s)) \<le> length (audioNotified s) + 1 + k"
    unfolding prefix by simp
  then show ?thesis using d stop send tick store prefix by blast
qed

theorem disconnect_abort_witness:
  "currentState (session_with 200) = RECORDING
   \<and> currentState (checkBluetoothConnection (onDisconnect (session_with 200))) = BLUETOOTH_DISCONNECTED
   \<and> \<not> recordingActive (checkBluetoothConnection (onDisconnect (session_with 200)))
   \<and> audioNotified (stopRecording 9000 None (checkBluetoothConnection (onDisconnect (session_with 200)))) = []
   \<and> length (audioNotified (sendAudioToPc None (session_with 200))) = 24
   \<and> length (audioNotified (sendAudioToPc (Some 3) (session_with 200))) = 4"
proof -
  let ?s = "session_with 200"
  let ?d = "checkBluetoothConnection (onDisconnect ?s)"
  note inst = disconnect_abort [of ?s 9000 None 0 None 0 "[]" 3]
  have old: "oldDeviceConnected ?s" by (simp add: session_with_link)
  from inst old have "currentState ?d = BLUETOOTH_DISCONNECTED" "\<not> recordingActive ?d"
    "stopRecording 9000 None ?d = ?d" "audioNotified ?d = audioNotified ?s"
    by blast+
  then have a: "currentState ?d = BLUETOOTH_DISCONNECTED" "\<not> recordingActive ?d"
    "audioNotified (stopRecording 9000 None ?d) = []"
    by (simp_all add: session_with_fields)
  have full: "length (audioNotified (sendAudioToPc None ?s)) = 24"
    by (subst sendAudioToPc_full_length) (simp_all add: session_with_fields session_with_link)
  from inst have "audioNotified (sendAudioToPc (Some 3) ?s)
      = take (length (audioNotified ?s) + 1 + 3) (audioNotified (sendAudioToPc None ?s))"
    by blast
  then have "length (audioNotified (sendAudioToPc (Some 3) ?s)) = 4"
    by (simp add: full session_with_fields)
  with a full show ?thesis by (simp add: session_with_fields)
qed

section \<open>Host commands\<close>

text \<open>
  C9, as the sketch has it.  The command bytes \<open>R\<close> and \<open>E\<close> set the state to \<open>IDLE\<close>
  whatever the state was, \<open>PROCESSING\<close> or any other, and change nothing else: the
  recording-active flag, the link flags and the buffer stay as they were.
\<close>

theorem handleBLECommand_ready_error:
  "c = CHR ''R'' \<or> c = CHR ''E'' \<Longrightarrow> handleBLECommand c s = s\<lparr>currentState := IDLE\<rparr>"
  by (auto simp: handleBLECommand_def handleError_def)

theorem handleBLECommand_ready_error_witness:
  "handleBLECommand CHR ''E'' (connected_device\<lparr>currentState := PROCESSING\<rparr>)
     = connected_device\<lparr>currentState := IDLE\<rparr>
   \<and> handleBLECommand CHR ''R'' (session_with 200) = (session_with 200)\<lparr>currentState := IDLE\<rparr>"
  using handleBLECommand_ready_error [of "CHR ''E''" "connected_device\<lparr>currentState := PROCESSING\<rparr>"]
    handleBLECommand_ready_error [of "CHR ''R''" "session_with 200"]
  by simp

text \<open>
  C9 as stated fails: an \<open>R\<close> that arrives during a recording ends the \<open>RECORDING\<close> state,
  and leaves the recording-active flag set.
\<close>

theorem handleBLECommand_ready_counterexample:
  "currentState (session_with 200) = RECORDING
   \<and> currentState (handleBLECommand CHR ''R'' (session_with 200)) \<noteq> currentState (session_with 200)
   \<and> recordingActive (handleBLECommand CHR ''R'' (session_with 200))"
  by (simp add: handleBLECommand_def session_with_fields)

section \<open>Single-precision rounding\<close>

lemma pow2_powi: "pow2 k = 2 powi k"
  by (simp add: pow2_def power_int_def power_one_over inverse_eq_divide)

lemma pow2_pos [simp]: "0 < pow2 k"
  by (simp add: pow2_powi)

lemma pow2_add: "pow2 (a + b) = pow2 a * pow2 b"
  by (simp add: pow2_powi power_int_add)

lemma pow2_nat: "pow2 (int n) = 2 ^ n"
  by (simp add: pow2_powi)

lemma pow2_mono: "a \<le> b \<Longrightarrow> pow2 a \<le> pow2 b"
  by (simp add: pow2_powi power_int_increasing)

lemma pow2_less_iff: "pow2 a < pow2 b \<longleftrightarrow> a < b"
  by (metis pow2_powi power_int_strict_increasing pow2_mono not_less one_less_numeral_iff semiring_norm(76))

text \<open>The exponent brackets its argument.\<close>

lemma f32_exponent_bounds:
  assumes "0 < x"
  shows "pow2 (f32_exponent x) \<le> x" "x < pow2 (f32_exponent x + 1)"
proof -
  obtain p q where pq: "quotient_of x = (p, q)" by (cases "quotient_of x")
  then have q: "0 < q" and x: "x = of_int p / of_int q"
    by (simp_all add: quotient_of_denom_pos quotient_of_div)
  from assms x q have p: "0 < p" by (simp add: zero_less_divide_iff)
  define bp where "bp = bitlen p"
  define bq where "bq = bitlen q"
  have bp: "2 ^ nat (bp - 1) \<le> p" "p < 2 ^ nat bp" and bq: "2 ^ nat (bq - 1) \<le> q" "q < 2 ^ nat bq"
    using bitlen_bounds [OF p] bitlen_bounds [OF q] by (simp_all add: bp_def bq_def)
  have bp1: "1 \<le> bp" and bq1: "1 \<le> bq"
    using p q by (simp_all add: bp_def bq_def bitlen_alt_def)
  have P: "pow2 (bp - 1) \<le> of_int p" "of_int p < pow2 bp"
  proof -
    have "pow2 (bp - 1) = of_int (2 ^ nat (bp - 1))" using bp1 by (simp add: pow2_def)
    also have "\<dots> \<le> of_int p" using bp(1) by (simp only: of_int_le_iff)
    finally show "pow2 (bp - 1) \<le> of_int p" .
    have "of_int p < (of_int (2 ^ nat bp) :: rat)" using bp(2) by (simp only: of_int_less_iff)
    also have "\<dots> = pow2 bp" using bp1 by (simp add: pow2_def)
    finally show "of_int p < pow2 bp" .
  qed
  have Q: "pow2 (bq - 1) \<le> of_int q" "of_int q < pow2 bq"
  proof -
    have "pow2 (bq - 1) = of_int (2 ^ nat (bq - 1))" using bq1 by (simp add: pow2_def)
    also have "\<dots> \<le> of_int q" using bq(1) by (simp only: of_int_le_iff)
    finally show "pow2 (bq - 1) \<le> of_int q" .
    have "of_int q < (of_int (2 ^ nat bq) :: rat)" using bq(2) by (simp only: of_int_less_iff)
    also have "\<dots> = pow2 bq" using bq1 by (simp add: pow2_def)
    finally show "of_int q < pow2 bq" .
  qed
  have qpos: "(0 :: rat) < of_int q" using q by simp
  have upper: "x < pow2 (bp - bq + 1)"
  proof -
    have "of_int p < pow2 bp" by (rule P)
    also have "pow2 bp = pow2 (bp - bq + 1) * pow2 (bq - 1)"
      by (simp add: pow2_add [symmetric])
    also have "\<dots> \<le> pow2 (bp - bq + 1) * of_int q"
      using Q(1) by (simp add: mult_left_mono less_imp_le)
    finally show ?thesis using qpos by (simp add: x pos_divide_less_eq)
  qed
  have lower: "pow2 (bp - bq - 1) \<le> x"
  proof -
    have "pow2 (bp - bq - 1) * of_int q \<le> pow2 (bp - bq - 1) * pow2 bq"
      using Q(2) by (simp add: mult_left_mono less_imp_le)
    also have "\<dots> = pow2 (bp - 1)" by (simp add: pow2_add [symmetric])
    also have "\<dots> \<le> of_int p" by (rule P)
    finally show ?thesis using qpos by (simp add: x pos_le_divide_eq)
  qed
  have e: "f32_exponent x = (if pow2 (bp - bq) \<le> x then bp - bq else bp - bq - 1)"
    by (simp add: f32_exponent_def pq bp_def bq_def Let_def)
  show "pow2 (f32_exponent x) \<le> x" using lower by (simp add: e)
  show "x < pow2 (f32_exponent x + 1)" using upper by (auto simp: e not_le)
qed

lemma round_half_even_of_int: "round_half_even (of_int m) = m"
  by (simp add: round_half_even_def)

lemma round_half_even_floor: "\<lfloor>y\<rfloor> \<le> round_half_even y" "round_half_even y \<le> \<lfloor>y\<rfloor> + 1"
  by (simp_all add: round_half_even_def Let_def)

lemma round_half_even_ge: "of_int m \<le> y \<Longrightarrow> m \<le> round_half_even y"
proof -
  assume "of_int m \<le> y"
  then have "m \<le> \<lfloor>y\<rfloor>" by (simp only: le_floor_iff)
  also have "\<dots> \<le> round_half_even y" by (rule round_half_even_floor)
  finally show ?thesis .
qed

lemma round_half_even_le: "y \<le> of_int m \<Longrightarrow> round_half_even y \<le> m"
proof -
  assume le: "y \<le> of_int m"
  then have "\<lfloor>y\<rfloor> \<le> \<lfloor>(of_int m :: rat)\<rfloor>" by (rule floor_mono)
  then have fl: "\<lfloor>y\<rfloor> \<le> m" by (simp only: floor_of_int)
  show ?thesis
  proof (cases "y = of_int \<lfloor>y\<rfloor>")
    case True
    then have "round_half_even y = \<lfloor>y\<rfloor>" by (simp add: round_half_even_def)
    with fl show ?thesis by simp
  next
    case False
    then have "of_int \<lfloor>y\<rfloor> < y" using of_int_floor_le [of y] by (auto simp: less_le)
    with le have "(of_int \<lfloor>y\<rfloor> :: rat) < of_int m" by linarith
    then have "\<lfloor>y\<rfloor> < m" by (simp only: of_int_less_iff)
    then have "\<lfloor>y\<rfloor> + 1 \<le> m" by simp
    moreover have "round_half_even y \<le> \<lfloor>y\<rfloor> + 1" by (rule round_half_even_floor)
    ultimately show ?thesis by simp
  qed
qed

lemma f32_pos_unfold:
  assumes "0 < x"
  shows "f32 x = of_int (round_half_even (x / pow2 (f32_exponent x - 23))) * pow2 (f32_exponent x - 23)"
  using assms by (simp add: f32_def Let_def)

lemma f32_lower:
  assumes "0 < x"
  shows "pow2 (f32_exponent x) \<le> f32 x"
proof -
  let ?e = "f32_exponent x" and ?k = "f32_exponent x - 23"
  have "?e = 23 + ?k" by simp
  then have "pow2 ?e = pow2 23 * pow2 ?k" by (simp only: pow2_add [symmetric])
  moreover have "pow2 23 = of_int (2 ^ 23)" by (simp add: pow2_def)
  ultimately have split: "pow2 ?e = of_int (2 ^ 23) * pow2 ?k" by (simp only:)
  then have "of_int (2 ^ 23) * pow2 ?k \<le> x"
    using f32_exponent_bounds(1) [OF assms] by (simp only:)
  then have "of_int (2 ^ 23) \<le> x / pow2 ?k" by (simp add: pos_le_divide_eq)
  then have "2 ^ 23 \<le> round_half_even (x / pow2 ?k)" by (rule round_half_even_ge)
  then have "(of_int (2 ^ 23) :: rat) \<le> of_int (round_half_even (x / pow2 ?k))"
    by (simp only: of_int_le_iff)
  then have "of_int (2 ^ 23) * pow2 ?k \<le> of_int (round_half_even (x / pow2 ?k)) * pow2 ?k"
    by (rule mult_right_mono) (simp add: less_imp_le)
  then show ?thesis by (simp only: f32_pos_unfold [OF assms] split)
qed

lemma f32_upper:
  assumes "0 < x"
  shows "f32 x \<le> pow2 (f32_exponent x + 1)"
proof -
  let ?e = "f32_exponent x" and ?k = "f32_exponent x - 23"
  have split: "pow2 (?e + 1) = of_int (2 ^ 24) * pow2 ?k"
  proof -
    have "?e + 1 = 24 + ?k" by simp
    then have "pow2 (?e + 1) = pow2 24 * pow2 ?k" by (simp only: pow2_add [symmetric])
    moreover have "pow2 24 = of_int (2 ^ 24)" by (simp add: pow2_def)
    ultimately show ?thesis by (simp only:)
  qed
  then have "x \<le> of_int (2 ^ 24) * pow2 ?k"
    using f32_exponent_bounds(2) [OF assms] by (simp only: less_imp_le)
  then have "x / pow2 ?k \<le> of_int (2 ^ 24)" by (simp add: pos_divide_le_eq)
  then have "round_half_even (x / pow2 ?k) \<le> 2 ^ 24" by (rule round_half_even_le)
  then have "(of_int (round_half_even (x / pow2 ?k)) :: rat) \<le> of_int (2 ^ 24)"
    by (simp only: of_int_le_iff)
  then have "of_int (round_half_even (x / pow2 ?k)) * pow2 ?k \<le> of_int (2 ^ 24) * pow2 ?k"
    by (rule mult_right_mono) (simp add: less_imp_le)
  then show ?thesis by (simp only: f32_pos_unfold [OF assms] split)
qed

lemma f32_nonneg: "0 \<le> x \<Longrightarrow> 0 \<le> f32 x"
proof (cases "x = 0")
  case True
  then show ?thesis by (simp add: f32_def)
next
  case False
  assume "0 \<le> x"
  with False have "0 < x" by simp
  from f32_lower [OF this] show ?thesis
    using pow2_pos [of "f32_exponent x"] by linarith
qed

lemma pow2_numeral: "pow2 (int n) = of_nat (2 ^ n)"
  by (simp add: pow2_def)

lemma f32_of_nat_exact:
  assumes "n < 2 ^ 24"
  shows "f32 (of_nat n) = of_nat n"
proof (cases "n = 0")
  case True
  then show ?thesis by (simp add: f32_def)
next
  case False
  define x :: rat where "x = of_nat n"
  from False have pos: "0 < x" by (simp add: x_def)
  define e where "e = f32_exponent x"
  have "pow2 e \<le> x" unfolding e_def by (rule f32_exponent_bounds [OF pos])
  also have "x < of_nat (2 ^ 24)" unfolding x_def using assms by (simp only: of_nat_less_iff)
  also have "of_nat (2 ^ 24) = pow2 (int 24)" by (simp only: pow2_numeral)
  finally have "e < int 24" by (simp only: pow2_less_iff)
  then have k: "0 \<le> 23 - e" by simp
  define j where "j = nat (23 - e)"
  have j: "23 - e = int j" using k by (simp add: j_def)
  have "pow2 (e - 23) * pow2 (23 - e) = pow2 0" by (simp only: pow2_add [symmetric]) simp
  then have inv: "pow2 (e - 23) * of_nat (2 ^ j) = 1"
    by (simp only: j pow2_numeral) (simp add: pow2_def)
  have nz: "pow2 (e - 23) \<noteq> 0" by (metis less_irrefl pow2_pos)
  have "x * of_nat (2 ^ j) * pow2 (e - 23) = x * (pow2 (e - 23) * of_nat (2 ^ j))"
    by (simp only: mult.assoc mult.commute)
  also have "\<dots> = x" by (simp only: inv mult_1_right)
  finally have "x / pow2 (e - 23) = x * of_nat (2 ^ j)"
    using nz by (metis nonzero_divide_eq_eq)
  also have "\<dots> = of_int (int (n * 2 ^ j))"
    by (simp add: x_def)
  finally have "round_half_even (x / pow2 (e - 23)) = int (n * 2 ^ j)"
    by (simp only: round_half_even_of_int)
  then have "f32 x = of_int (int (n * 2 ^ j)) * pow2 (e - 23)"
    unfolding e_def by (simp only: f32_pos_unfold [OF pos])
  also have "\<dots> = x * (pow2 (e - 23) * of_nat (2 ^ j))"
    by (simp add: x_def)
  also have "\<dots> = x" by (simp only: inv mult_1_right)
  finally show ?thesis by (simp only: x_def)
qed

lemma f32_of_nat_large:
  assumes "2 ^ 24 \<le> n"
  shows "2 ^ 24 \<le> f32 (of_nat n)"
proof -
  define x :: rat where "x = of_nat n"
  have "pow2 (int 24) = of_nat (2 ^ 24)" by (simp only: pow2_numeral)
  also have "\<dots> \<le> x" unfolding x_def using assms by (simp only: of_nat_le_iff)
  finally have ge: "pow2 (int 24) \<le> x" .
  then have pos: "0 < x" using pow2_pos [of "int 24"] by linarith
  from ge f32_exponent_bounds(2) [OF pos] have "pow2 (int 24) < pow2 (f32_exponent x + 1)" by simp
  then have "int 24 \<le> f32_exponent x" by (simp only: pow2_less_iff)
  then have "pow2 (int 24) \<le> pow2 (f32_exponent x)" by (rule pow2_mono)
  also have "\<dots> \<le> f32 x" by (rule f32_lower [OF pos])
  finally have "of_nat (2 ^ 24) \<le> f32 x" by (simp only: pow2_numeral)
  then show ?thesis by (simp add: x_def)
qed

lemma f32_small:
  assumes "0 \<le> x" "x < 2 ^ 14"
  shows "f32 x \<le> 2 ^ 14"
proof (cases "x = 0")
  case True
  then show ?thesis by (simp add: f32_def)
next
  case False
  with assms have pos: "0 < x" by simp
  have p14: "pow2 (int 14) = 2 ^ 14" by (simp only: pow2_nat)
  have "pow2 (f32_exponent x) \<le> x" by (rule f32_exponent_bounds [OF pos])
  also have "x < pow2 (int 14)" using assms(2) by (simp only: p14)
  finally have "f32_exponent x + 1 \<le> int 14" by (simp only: pow2_less_iff)
  then have "pow2 (f32_exponent x + 1) \<le> pow2 (int 14)" by (rule pow2_mono)
  with f32_upper [OF pos] show ?thesis by (simp only: p14)
qed

text \<open>Against a limit of at most \<open>2^14\<close>, comparing the converted count is comparing the count.\<close>

lemma f32_compare:
  assumes "thr \<le> 2 ^ 14"
  shows "thr \<le> f32 (of_nat n) \<longleftrightarrow> thr \<le> of_nat n"
proof (cases "n < 2 ^ 24")
  case True
  then show ?thesis by (simp only: f32_of_nat_exact)
next
  case False
  then have big: "2 ^ 24 \<le> n" by simp
  then have "(of_nat (2 ^ 24) :: rat) \<le> of_nat n" by (simp only: of_nat_le_iff)
  then have a: "(2 ^ 24 :: rat) \<le> of_nat n" by simp
  have b: "2 ^ 24 \<le> f32 (of_nat n)" using big by (rule f32_of_nat_large)
  have "(2 ^ 14 :: rat) \<le> 2 ^ 24" by simp
  with assms have "thr \<le> 2 ^ 24" by (rule order_trans)
  with a b show ?thesis by (meson order_trans)
qed

section \<open>The recording handler\<close>

lemma maxRecordingTime_nonneg: "0 \<le> maxRecordingTime s"
  by (simp add: maxRecordingTime_def SAMPLE_RATE_def f32_nonneg)

lemma limit_small:
  "f32 (targetDuration s * 1000) \<le> 2 ^ 14" "f32 (realtimeChunkTime s * 1000) \<le> 2 ^ 14"
proof -
  have "0 \<le> targetDuration s * 1000" "targetDuration s * 1000 < 2 ^ 14"
    using maxRecordingTime_nonneg [of s]
    by (simp_all add: targetDuration_def FIXED_RECORDING_DURATION_def min_def)
  then show "f32 (targetDuration s * 1000) \<le> 2 ^ 14" by (rule f32_small)
  have "0 \<le> realtimeChunkTime s * 1000" "realtimeChunkTime s * 1000 < 2 ^ 14"
    using maxRecordingTime_nonneg [of s]
    by (simp_all add: realtimeChunkTime_def REALTIME_CHUNK_DURATION_def min_def)
  then show "f32 (realtimeChunkTime s * 1000) \<le> 2 ^ 14" by (rule f32_small)
qed

lemma limit_compare:
  "f32 (targetDuration s * 1000) \<le> f32 (of_nat n) \<longleftrightarrow> f32 (targetDuration s * 1000) \<le> of_nat n"
  "f32 (realtimeChunkTime s * 1000) \<le> f32 (of_nat n) \<longleftrightarrow> f32 (realtimeChunkTime s * 1000) \<le> of_nat n"
  by (rule f32_compare, rule limit_small)+

lemma limit_compare_word:
  fixes w :: millis
  shows "f32 (targetDuration s * 1000) \<le> f32 (unsigned w) \<longleftrightarrow> f32 (targetDuration s * 1000) \<le> unsigned w"
    "f32 (realtimeChunkTime s * 1000) \<le> f32 (unsigned w) \<longleftrightarrow> f32 (realtimeChunkTime s * 1000) \<le> unsigned w"
  using limit_compare [of s "unat w"] by simp_all

lemma checkVoiceActivity_frame:
  "currentState (snd (checkVoiceActivity rd tv s)) = currentState s"
  "recordingStartTime (snd (checkVoiceActivity rd tv s)) = recordingStartTime s"
  "manualRecording (snd (checkVoiceActivity rd tv s)) = manualRecording s"
  "audioNotified (snd (checkVoiceActivity rd tv s)) = audioNotified s"
  by (auto simp: checkVoiceActivity_def store_block_def Let_def split: option.splits)

lemma checkVoiceActivity_not_speaking:
  "\<not> fst (checkVoiceActivity rd tv s) \<Longrightarrow>
     lastSpeechTime (snd (checkVoiceActivity rd tv s)) = lastSpeechTime s"
  by (auto simp: checkVoiceActivity_def store_block_def Let_def split: option.splits if_splits)

lemma stopRecording_leaves:
  "currentState s = RECORDING \<Longrightarrow> currentState (stopRecording ts lost s) \<noteq> RECORDING"
  by (simp add: stopRecording_def Let_def)

lemma handleRecordingState_auto:
  assumes "currentState s = RECORDING" "\<not> manualRecording s"
  shows "currentState (handleRecordingState t0 rd tv ts lost s) \<noteq> RECORDING \<longleftrightarrow>
       f32 (realtimeChunkTime s * 1000) \<le> of_nat (unat (t0 - recordingStartTime s))
     \<or> (\<not> fst (checkVoiceActivity rd tv s)
        \<and> SILENCE_DURATION < t0 - lastSpeechTime s
        \<and> 100 < t0 - recordingStartTime s
        \<and> 50 < bufferIndex (snd (checkVoiceActivity rd tv s)))"
proof (cases "f32 (realtimeChunkTime s * 1000) \<le> of_nat (unat (t0 - recordingStartTime s))")
  case True
  then have "handleRecordingState t0 rd tv ts lost s = stopRecording ts lost s"
    using assms(2) by (simp add: handleRecordingState_def limit_compare_word)
  with True assms(1) show ?thesis by (simp add: stopRecording_leaves)
next
  case False
  obtain speaking s1 where c: "checkVoiceActivity rd tv s = (speaking, s1)"
    by (cases "checkVoiceActivity rd tv s")
  have s1: "currentState s1 = RECORDING"
    using checkVoiceActivity_frame(1) [of rd tv s] assms(1) by (simp add: c)
  have last: "lastSpeechTime s1 = lastSpeechTime s" if "\<not> speaking"
    using checkVoiceActivity_not_speaking [of rd tv s] that by (simp add: c)
  from False assms(2) show ?thesis
    using s1 last stopRecording_leaves [OF s1, of ts lost]
    by (auto simp: handleRecordingState_def limit_compare_word c)
qed

lemma handleRecordingState_manual:
  assumes "currentState s = RECORDING" "manualRecording s"
  shows "currentState (handleRecordingState t0 rd tv ts lost s) \<noteq> RECORDING \<longleftrightarrow>
       f32 (targetDuration s * 1000) \<le> of_nat (unat (t0 - recordingStartTime s))"
  using assms stopRecording_leaves [OF assms(1), of ts lost] checkVoiceActivity_frame(1) [of rd tv s]
  by (auto simp: handleRecordingState_def limit_compare_word)

lemma maxRecordingTime_whole_seconds:
  assumes "maxBufferSize s = SAMPLE_RATE * k" "k \<le> 1000"
  shows "maxRecordingTime s = of_nat k"
proof -
  have "SAMPLE_RATE * k < 2 ^ 24" using assms(2) by (simp add: SAMPLE_RATE_def)
  then have "f32 (of_nat (SAMPLE_RATE * k)) = of_nat (SAMPLE_RATE * k)" by (rule f32_of_nat_exact)
  then have "f32 (of_nat (maxBufferSize s)) / of_nat SAMPLE_RATE = of_nat k"
    by (simp add: assms(1) SAMPLE_RATE_def)
  moreover have "f32 (of_nat k) = of_nat k" using assms(2) by (intro f32_of_nat_exact) simp
  ultimately show ?thesis by (simp only: maxRecordingTime_def)
qed

lemma limit_whole_seconds:
  assumes "maxBufferSize s = SAMPLE_RATE * k" "k \<le> 1000"
  shows "f32 (targetDuration s * 1000) = of_nat (1000 * min 15 k)"
    "f32 (realtimeChunkTime s * 1000) = of_nat (1000 * min 3 k)"
proof -
  have t: "targetDuration s * 1000 = of_nat (1000 * min 15 k)"
    by (simp add: targetDuration_def maxRecordingTime_whole_seconds [OF assms]
        FIXED_RECORDING_DURATION_def min_def)
  have r: "realtimeChunkTime s * 1000 = of_nat (1000 * min 3 k)"
    by (simp add: realtimeChunkTime_def maxRecordingTime_whole_seconds [OF assms]
        REALTIME_CHUNK_DURATION_def min_def)
  show "f32 (targetDuration s * 1000) = of_nat (1000 * min 15 k)"
    unfolding t by (rule f32_of_nat_exact) simp
  show "f32 (realtimeChunkTime s * 1000) = of_nat (1000 * min 3 k)"
    unfolding r by (rule f32_of_nat_exact) simp
qed

text \<open>
  C6.  A tick of the handler in an automatic session ends the \<open>RECORDING\<close> state exactly
  when the elapsed time has reached the duration limit, or when \<open>checkVoiceActivity\<close>
  reports no speech, the last speech stamp is more than \<open>SILENCE_DURATION\<close> old, more than
  100 ms have elapsed and more than 50 samples are stored.  When the silence has lasted
  that long but one of the two floors is not met, the tick only takes in the block and the
  session goes on.  The limit is the float \<open>realtimeChunkTime * 1000\<close>, compared with the
  elapsed milliseconds as numbers; for a buffer of \<open>k\<close> whole seconds it is
  \<open>1000 * min 3 k\<close>.
\<close>

theorem automatic_stop_condition:
  assumes "currentState s = RECORDING" "\<not> manualRecording s"
  shows "(currentState (handleRecordingState t0 rd tv ts lost s) \<noteq> RECORDING \<longleftrightarrow>
            f32 (realtimeChunkTime s * 1000) \<le> of_nat (unat (t0 - recordingStartTime s))
          \<or> (\<not> fst (checkVoiceActivity rd tv s)
             \<and> unat SILENCE_DURATION < unat (t0 - lastSpeechTime s)
             \<and> 100 < unat (t0 - recordingStartTime s)
             \<and> 50 < bufferIndex (snd (checkVoiceActivity rd tv s))))
       \<and> (\<not> f32 (realtimeChunkTime s * 1000) \<le> of_nat (unat (t0 - recordingStartTime s))
            \<and> \<not> fst (checkVoiceActivity rd tv s)
            \<and> unat SILENCE_DURATION < unat (t0 - lastSpeechTime s)
            \<and> \<not> (100 < unat (t0 - recordingStartTime s)
                  \<and> 50 < bufferIndex (snd (checkVoiceActivity rd tv s)))
          \<longrightarrow> handleRecordingState t0 rd tv ts lost s = snd (checkVoiceActivity rd tv s)
              \<and> currentState (handleRecordingState t0 rd tv ts lost s) = RECORDING)
       \<and> (\<forall>k. maxBufferSize s = SAMPLE_RATE * k \<and> k \<le> 1000 \<longrightarrow>
             f32 (realtimeChunkTime s * 1000) = of_nat (1000 * min 3 k))"
proof -
  have iff: "currentState (handleRecordingState t0 rd tv ts lost s) \<noteq> RECORDING \<longleftrightarrow>
            f32 (realtimeChunkTime s * 1000) \<le> of_nat (unat (t0 - recordingStartTime s))
          \<or> (\<not> fst (checkVoiceActivity rd tv s)
             \<and> unat SILENCE_DURATION < unat (t0 - lastSpeechTime s)
             \<and> 100 < unat (t0 - recordingStartTime s)
             \<and> 50 < bufferIndex (snd (checkVoiceActivity rd tv s)))"
    using handleRecordingState_auto [OF assms, of t0 rd tv ts lost]
    by (simp add: word_less_nat_alt)
  have cont: "handleRecordingState t0 rd tv ts lost s = snd (checkVoiceActivity rd tv s)"
    if "\<not> f32 (realtimeChunkTime s * 1000) \<le> of_nat (unat (t0 - recordingStartTime s))"
      "\<not> fst (checkVoiceActivity rd tv s)"
      "\<not> (100 < unat (t0 - recordingStartTime s) \<and> 50 < bufferIndex (snd (checkVoiceActivity rd tv s)))"
    using that assms(2)
    by (auto simp: handleRecordingState_def limit_compare_word word_less_nat_alt split: prod.splits)
  have rec: "currentState (snd (checkVoiceActivity rd tv s)) = RECORDING"
    using assms(1) by (simp add: checkVoiceActivity_frame)
  have whole: "\<forall>k. maxBufferSize s = SAMPLE_RATE * k \<and> k \<le> 1000 \<longrightarrow>
             f32 (realtimeChunkTime s * 1000) = of_nat (1000 * min 3 k)"
    using limit_whole_seconds(2) by blast
  from cont rec have cont': "\<not> f32 (realtimeChunkTime s * 1000) \<le> of_nat (unat (t0 - recordingStartTime s))
            \<and> \<not> fst (checkVoiceActivity rd tv s)
            \<and> unat SILENCE_DURATION < unat (t0 - lastSpeechTime s)
            \<and> \<not> (100 < unat (t0 - recordingStartTime s)
                  \<and> 50 < bufferIndex (snd (checkVoiceActivity rd tv s)))
          \<longrightarrow> handleRecordingState t0 rd tv ts lost s = snd (checkVoiceActivity rd tv s)
              \<and> currentState (handleRecordingState t0 rd tv ts lost s) = RECORDING"
    by metis
  from iff cont' whole show ?thesis by (intro conjI)
qed

lemma session_with_vad:
  assumes "0 < n" "n \<le> 240000"
  shows "lastSpeechTime (session_with n) = 5000" "speechDetected (session_with n)"
  using assms
  by (auto simp: session_with_def checkVoiceActivity_def store_block_def rms_replicate_0
      SILENCE_THRESHOLD_def SILENCE_DURATION_def eval_defs)

lemma session_with_silent_tick:
  assumes "0 < n" "n + 10 \<le> 240000"
  shows "\<not> fst (checkVoiceActivity (Some (replicate 10 0)) 6200 (session_with n))"
    "bufferIndex (snd (checkVoiceActivity (Some (replicate 10 0)) 6200 (session_with n))) = n + 10"
  using assms
  by (simp_all add: checkVoiceActivity_def store_block_def rms_replicate_0 Let_def
      SILENCE_THRESHOLD_def SILENCE_DURATION_def session_with_fields session_with_vad)

theorem automatic_stop_condition_witness:
  "currentState (handleRecordingState 6200 (Some (replicate 10 0)) 6200 6201 None (session_with 200))
     \<noteq> RECORDING
   \<and> currentState (handleRecordingState 6200 (Some (replicate 10 0)) 6200 6201 None (session_with 20))
     = RECORDING
   \<and> currentState (handleRecordingState 8000 (Some (replicate 10 1000)) 8000 8001 None (session_with 20))
     \<noteq> RECORDING"
proof -
  have cap: "maxBufferSize (session_with n) = SAMPLE_RATE * 15 \<and> (15 :: nat) \<le> 1000"
    if "0 < n" "n \<le> 240000" for n
    using that by (simp add: session_with_fields SAMPLE_RATE_def)
  have pre: "currentState (session_with 200) = RECORDING" "\<not> manualRecording (session_with 200)"
    "currentState (session_with 20) = RECORDING" "\<not> manualRecording (session_with 20)"
    by (simp_all add: session_with_fields)
  note a = automatic_stop_condition [OF pre(1,2), of 6200 "Some (replicate 10 0)" 6200 6201 None]
  note b = automatic_stop_condition [OF pre(3,4), of 6200 "Some (replicate 10 0)" 6200 6201 None]
  note c = automatic_stop_condition [OF pre(3,4), of 8000 "Some (replicate 10 1000)" 8000 8001 None]
  have limit200: "f32 (realtimeChunkTime (session_with 200) * 1000) = 3000"
    using a [THEN conjunct2, THEN conjunct2, THEN spec, of 15] cap [of 200] by simp
  have limit20: "f32 (realtimeChunkTime (session_with 20) * 1000) = 3000"
    using b [THEN conjunct2, THEN conjunct2, THEN spec, of 15] cap [of 20] by simp
  have "currentState (handleRecordingState 6200 (Some (replicate 10 0)) 6200 6201 None (session_with 200))
     \<noteq> RECORDING"
    using a [THEN conjunct1]
    by (simp add: limit200 session_with_silent_tick session_with_fields session_with_vad SILENCE_DURATION_def)
  moreover have "currentState (handleRecordingState 6200 (Some (replicate 10 0)) 6200 6201 None (session_with 20))
     = RECORDING"
    using b [THEN conjunct1]
    by (simp add: limit20 session_with_silent_tick session_with_fields session_with_vad SILENCE_DURATION_def)
  moreover have "currentState (handleRecordingState 8000 (Some (replicate 10 1000)) 8000 8001 None (session_with 20))
     \<noteq> RECORDING"
    using c [THEN conjunct1]
    by (simp add: limit20 session_with_fields)
  ultimately show ?thesis by blast
qed

lemma five_second_device_fields:
  "currentState five_second_device = IDLE" "bluetoothConnected five_second_device"
  "maxBufferSize five_second_device = 80000"
  by (simp_all add: five_second_device_def eval_defs)

text \<open>
  C8.  A tick of the handler in a manual session ends the \<open>RECORDING\<close> state exactly when
  the elapsed time has reached \<open>targetDuration * 1000\<close>, whatever the voice tracker says,
  where \<open>targetDuration\<close> is the smaller of \<open>FIXED_RECORDING_DURATION\<close> and
  \<open>maxRecordingTime\<close>, the float quotient of the capacity by the sample rate.  For a
  buffer of \<open>k\<close> whole seconds the session stops at \<open>1000 * min 15 k\<close> ms: with five
  seconds of buffer, at 5000 ms.
\<close>

theorem manual_duration_cap:
  assumes "currentState s = RECORDING" "manualRecording s"
  shows "(currentState (handleRecordingState t0 rd tv ts lost s) \<noteq> RECORDING \<longleftrightarrow>
            f32 (targetDuration s * 1000) \<le> of_nat (unat (t0 - recordingStartTime s)))
       \<and> targetDuration s = min (of_nat FIXED_RECORDING_DURATION) (maxRecordingTime s)
       \<and> (maxBufferSize s < 2 ^ 24 \<longrightarrow>
             maxRecordingTime s = f32 (of_nat (maxBufferSize s) / of_nat SAMPLE_RATE))
       \<and> (\<forall>k. maxBufferSize s = SAMPLE_RATE * k \<and> k \<le> 1000 \<longrightarrow>
             (currentState (handleRecordingState t0 rd tv ts lost s) \<noteq> RECORDING \<longleftrightarrow>
                1000 * min FIXED_RECORDING_DURATION k \<le> unat (t0 - recordingStartTime s)))
       \<and> (maxBufferSize s = SAMPLE_RATE * 5 \<longrightarrow>
             (currentState (handleRecordingState t0 rd tv ts lost s) \<noteq> RECORDING \<longleftrightarrow>
                5000 \<le> unat (t0 - recordingStartTime s)))"
proof -
  note iff = handleRecordingState_manual [OF assms, of t0 rd tv ts lost]
  have exact: "maxRecordingTime s = f32 (of_nat (maxBufferSize s) / of_nat SAMPLE_RATE)"
    if "maxBufferSize s < 2 ^ 24"
    using f32_of_nat_exact [OF that] by (simp only: maxRecordingTime_def)
  have whole: "currentState (handleRecordingState t0 rd tv ts lost s) \<noteq> RECORDING \<longleftrightarrow>
                1000 * min FIXED_RECORDING_DURATION k \<le> unat (t0 - recordingStartTime s)"
    if "maxBufferSize s = SAMPLE_RATE * k \<and> k \<le> 1000" for k
  proof -
    from that have "f32 (targetDuration s * 1000) = of_nat (1000 * min 15 k)"
      by (intro limit_whole_seconds) simp_all
    then show ?thesis
      unfolding iff by (simp only: of_nat_le_iff FIXED_RECORDING_DURATION_def)
  qed
  have five: "currentState (handleRecordingState t0 rd tv ts lost s) \<noteq> RECORDING \<longleftrightarrow>
                5000 \<le> unat (t0 - recordingStartTime s)"
    if "maxBufferSize s = SAMPLE_RATE * 5"
    using whole [of 5] that by (simp add: FIXED_RECORDING_DURATION_def)
  from iff exact whole five show ?thesis
    by (simp only: targetDuration_def) blast
qed

theorem manual_duration_cap_witness:
  "currentState (handleRecordingState 9999 None 9999 9999 None
      (startRecording True 5000 5000 five_second_device)) = RECORDING
   \<and> currentState (handleRecordingState 10000 None 10000 10000 None
      (startRecording True 5000 5000 five_second_device)) \<noteq> RECORDING"
proof -
  let ?s = "startRecording True 5000 5000 five_second_device"
  have s: "currentState ?s = RECORDING" "manualRecording ?s" "maxBufferSize ?s = SAMPLE_RATE * 5"
    "recordingStartTime ?s = 5000"
    by (simp_all add: startRecording_def five_second_device_fields SAMPLE_RATE_def)
  note a = manual_duration_cap [OF s(1,2), of 9999 None 9999 9999 None]
  note b = manual_duration_cap [OF s(1,2), of 10000 None 10000 10000 None]
  have "currentState (handleRecordingState 9999 None 9999 9999 None ?s) = RECORDING"
    using a [THEN conjunct2, THEN conjunct2, THEN conjunct2, THEN conjunct2] s(3,4) by simp
  moreover have "currentState (handleRecordingState 10000 None 10000 10000 None ?s) \<noteq> RECORDING"
    using b [THEN conjunct2, THEN conjunct2, THEN conjunct2, THEN conjunct2] s(3,4) by simp
  ultimately show ?thesis by blast
qed

section \<open>The voice tracker at the start of a session\<close>

lemma sendAudioToPc_lastSpeechTime [simp]:
  "lastSpeechTime (sendAudioToPc lost s) = lastSpeechTime s"
proof -
  obtain d ns where "sendAudioToPc lost s = s\<lparr>deviceConnected := d, audioNotified := ns\<rparr>"
    using sendAudioToPc_frame by blast
  then show ?thesis by simp
qed

lemma stopRecording_lastSpeechTime [simp]:
  "lastSpeechTime (stopRecording ts lost s) = lastSpeechTime s"
  by (simp add: stopRecording_def Let_def)

lemma checkVoiceActivity_lastSpeechTime:
  "lastSpeechTime (snd (checkVoiceActivity rd tv s)) = lastSpeechTime s
   \<or> lastSpeechTime (snd (checkVoiceActivity rd tv s)) = tv"
  by (auto simp: checkVoiceActivity_def Let_def split: option.splits)

lemma handleRecordingState_lastSpeechTime:
  "lastSpeechTime (handleRecordingState t0 rd tv ts lost s) = lastSpeechTime s
   \<or> lastSpeechTime (handleRecordingState t0 rd tv ts lost s) = tv"
  using checkVoiceActivity_lastSpeechTime [of rd tv s]
  by (auto simp: handleRecordingState_def Let_def split: prod.splits)

lemma handleRecordingState_start:
  "recordingStartTime (handleRecordingState t0 rd tv ts lost s) = recordingStartTime s"
proof -
  have stop: "recordingStartTime (stopRecording ts lost x) = recordingStartTime x" for x
  proof -
    obtain d ns where "sendAudioToPc lost (x\<lparr>recordingActive := False, manualRecording := False\<rparr>)
        = (x\<lparr>recordingActive := False, manualRecording := False\<rparr>)\<lparr>deviceConnected := d, audioNotified := ns\<rparr>"
      using sendAudioToPc_frame by blast
    then show ?thesis by (simp add: stopRecording_def Let_def)
  qed
  show ?thesis
    using checkVoiceActivity_frame(2) [of rd tv s]
    by (auto simp: handleRecordingState_def Let_def stop split: prod.splits)
qed

lemma stamped_step:
  assumes "stamped T c s" "c \<le> t0" "t0 \<le> tv"
  shows "stamped T tv (handleRecordingState (of_nat t0) rd (of_nat tv) (of_nat ts) lost s)"
proof -
  from assms(1) obtain L where L: "lastSpeechTime s = of_nat L" "T \<le> L" "L \<le> c"
    by (auto simp: stamped_def)
  from handleRecordingState_lastSpeechTime [of "of_nat t0" rd "of_nat tv" "of_nat ts" lost s]
  show ?thesis
  proof
    assume "lastSpeechTime (handleRecordingState (of_nat t0) rd (of_nat tv) (of_nat ts) lost s) = lastSpeechTime s"
    with L assms(2,3) show ?thesis unfolding stamped_def by (intro exI [of _ L]) simp
  next
    assume "lastSpeechTime (handleRecordingState (of_nat t0) rd (of_nat tv) (of_nat ts) lost s) = of_nat tv"
    with L assms(2,3) show ?thesis unfolding stamped_def by (intro exI [of _ tv]) simp
  qed
qed

lemma session_run_stamped:
  assumes "stamped T c s" "chronological c ticks" "recordingStartTime s = of_nat T'"
  shows "\<exists>c'. stamped T c' (session_run ticks s) \<and> c \<le> c'
           \<and> (\<forall>t. chronological c' t \<longrightarrow> chronological c t)
           \<and> (\<forall>rest. chronological c (ticks @ rest) \<longrightarrow> currentState (session_run ticks s) = RECORDING
                  \<longrightarrow> chronological c' rest)
           \<and> recordingStartTime (session_run ticks s) = of_nat T'"
  using assms
proof (induction ticks arbitrary: s c)
  case Nil
  then show ?case by auto
next
  case (Cons tick ticks)
  obtain t0 rd tv ts lost where tick: "tick = (t0, rd, tv, ts, lost)" by (cases tick)
  show ?case
  proof (cases "currentState s = RECORDING")
    case False
    with Cons.prems show ?thesis by (auto simp: tick)
  next
    case True
    let ?s = "handleRecordingState (of_nat t0) rd (of_nat tv) (of_nat ts) lost s"
    from Cons.prems(2) have ord: "c \<le> t0" "t0 \<le> tv" "chronological tv ticks" by (simp_all add: tick)
    have st: "stamped T tv ?s" using Cons.prems(1) ord(1,2) by (rule stamped_step)
    have start: "recordingStartTime ?s = of_nat T'"
      using Cons.prems(3) by (simp add: handleRecordingState_start)
    from Cons.IH [OF st ord(3) start] obtain c' where c': "stamped T c' (session_run ticks ?s)" "tv \<le> c'"
      "\<forall>t. chronological c' t \<longrightarrow> chronological tv t"
      "\<forall>rest. chronological tv (ticks @ rest) \<longrightarrow> currentState (session_run ticks ?s) = RECORDING
                  \<longrightarrow> chronological c' rest"
      "recordingStartTime (session_run ticks ?s) = of_nat T'" by blast
    have mono: "chronological c t" if "chronological tv t" for t
      using that ord(1,2) by (cases t) auto
    show ?thesis
      using c' ord True mono by (intro exI [of _ c']) (auto simp: tick)
  qed
qed

lemma stopRecording_config:
  "maxBufferSize (stopRecording ts lost x) = maxBufferSize x"
  "\<not> manualRecording x \<Longrightarrow> \<not> manualRecording (stopRecording ts lost x)"
proof -
  obtain d ns where "sendAudioToPc lost (x\<lparr>recordingActive := False, manualRecording := False\<rparr>)
      = (x\<lparr>recordingActive := False, manualRecording := False\<rparr>)\<lparr>deviceConnected := d, audioNotified := ns\<rparr>"
    using sendAudioToPc_frame by blast
  then show "maxBufferSize (stopRecording ts lost x) = maxBufferSize x"
    "\<not> manualRecording x \<Longrightarrow> \<not> manualRecording (stopRecording ts lost x)"
    by (simp_all add: stopRecording_def Let_def)
qed

lemma checkVoiceActivity_config:
  "maxBufferSize (snd (checkVoiceActivity rd tv s)) = maxBufferSize s"
  by (auto simp: checkVoiceActivity_def store_block_def Let_def split: option.splits)

lemma handleRecordingState_config:
  "maxBufferSize (handleRecordingState t0 rd tv ts lost s) = maxBufferSize s"
  "\<not> manualRecording s \<Longrightarrow> \<not> manualRecording (handleRecordingState t0 rd tv ts lost s)"
proof -
  obtain speaking s1 where c: "checkVoiceActivity rd tv s = (speaking, s1)"
    by (cases "checkVoiceActivity rd tv s")
  have s1: "maxBufferSize s1 = maxBufferSize s" "manualRecording s1 = manualRecording s"
    using checkVoiceActivity_config [of rd tv s] checkVoiceActivity_frame(3) [of rd tv s]
    by (simp_all add: c)
  show "maxBufferSize (handleRecordingState t0 rd tv ts lost s) = maxBufferSize s"
    by (simp add: handleRecordingState_def Let_def c s1 stopRecording_config)
  show "\<not> manualRecording (handleRecordingState t0 rd tv ts lost s)" if "\<not> manualRecording s"
    using that by (simp add: handleRecordingState_def Let_def c s1 stopRecording_config)
qed

lemma session_run_config:
  "maxBufferSize (session_run ticks s) = maxBufferSize s"
  "\<not> manualRecording s \<Longrightarrow> \<not> manualRecording (session_run ticks s)"
proof -
  show "maxBufferSize (session_run ticks s) = maxBufferSize s"
    by (induction ticks s rule: session_run.induct) (simp_all add: handleRecordingState_config)
  show "\<not> manualRecording (session_run ticks s)" if "\<not> manualRecording s"
    using that
    by (induction ticks s rule: session_run.induct) (simp_all add: handleRecordingState_config)
qed

lemma realtimeChunkTime_cong:
  "maxBufferSize s = maxBufferSize s' \<Longrightarrow> realtimeChunkTime s = realtimeChunkTime s'"
  by (simp add: realtimeChunkTime_def maxRecordingTime_def)

lemma unat_of_nat_diff_le:
  assumes "L \<le> t"
  shows "unat (of_nat t - of_nat L :: millis) \<le> t - L"
proof -
  have "(of_nat t - of_nat L :: millis) = of_nat (t - L)" using assms by simp
  then show ?thesis by (simp add: unat_of_nat)
qed

text \<open>
  C10.  A start that takes effect sets \<open>speechDetected\<close>, and stamps \<open>lastSpeechTime\<close>
  with the clock reading taken right after the one stored as \<open>recordingStartTime\<close>, in
  either mode and without looking at any audio.  Consequently, in an automatic session whose
  ticks read a clock that does not run backwards, a tick that ends the \<open>RECORDING\<close> state
  before the duration limit is reached, which is the silence stop, comes more than
  \<open>SILENCE_DURATION\<close> milliseconds after the start.
\<close>

theorem start_primes_voice_tracker:
  "(currentState s0 = IDLE \<and> bluetoothConnected s0 \<longrightarrow>
      speechDetected (startRecording manual t1 t2 s0)
      \<and> lastSpeechTime (startRecording manual t1 t2 s0) = t2
      \<and> recordingStartTime (startRecording manual t1 t2 s0) = t1
      \<and> currentState (startRecording manual t1 t2 s0) = RECORDING)
   \<and> (currentState s0 = IDLE \<and> bluetoothConnected s0 \<and> T1 \<le> T2
      \<and> chronological T2 (pre @ [(t0, rd, tv, ts, lost)])
      \<and> currentState (session_run pre (startRecording False (of_nat T1) (of_nat T2) s0)) = RECORDING
      \<and> currentState (handleRecordingState (of_nat t0) rd (of_nat tv) (of_nat ts) lost
            (session_run pre (startRecording False (of_nat T1) (of_nat T2) s0))) \<noteq> RECORDING
      \<and> \<not> f32 (realtimeChunkTime s0 * 1000) \<le> of_nat (unat (of_nat t0 - of_nat T1 :: millis))
      \<longrightarrow> T1 + unat SILENCE_DURATION < t0)"
proof -
  let ?s1 = "startRecording False (of_nat T1) (of_nat T2) s0"
  let ?s = "session_run pre ?s1"
  have first: "speechDetected (startRecording manual t1 t2 s0)
      \<and> lastSpeechTime (startRecording manual t1 t2 s0) = t2
      \<and> recordingStartTime (startRecording manual t1 t2 s0) = t1
      \<and> currentState (startRecording manual t1 t2 s0) = RECORDING"
    if "currentState s0 = IDLE \<and> bluetoothConnected s0"
    using that by (simp add: startRecording_def)
  have second: "T1 + unat SILENCE_DURATION < t0"
    if idle: "currentState s0 = IDLE" "bluetoothConnected s0" and T: "T1 \<le> T2"
      and chron: "chronological T2 (pre @ [(t0, rd, tv, ts, lost)])"
      and running: "currentState ?s = RECORDING"
      and fired: "currentState (handleRecordingState (of_nat t0) rd (of_nat tv) (of_nat ts) lost ?s) \<noteq> RECORDING"
      and early: "\<not> f32 (realtimeChunkTime s0 * 1000) \<le> of_nat (unat (of_nat t0 - of_nat T1 :: millis))"
  proof -
    have s1: "lastSpeechTime ?s1 = of_nat T2" "recordingStartTime ?s1 = of_nat T1"
      "\<not> manualRecording ?s1" "maxBufferSize ?s1 = maxBufferSize s0"
      using idle by (simp_all add: startRecording_def)
    have "stamped T1 T2 ?s1" unfolding stamped_def using s1(1) T by (intro exI [of _ T2]) simp
    from session_run_stamped [OF this _ s1(2), of pre]
    obtain c' where c': "stamped T1 c' ?s"
      "\<forall>rest. chronological T2 (pre @ rest) \<longrightarrow> currentState ?s = RECORDING \<longrightarrow> chronological c' rest"
      "recordingStartTime ?s = of_nat T1"
    proof -
      have "chronological T2 pre" using chron
        by (induction T2 pre rule: chronological.induct) auto
      from session_run_stamped [OF \<open>stamped T1 T2 ?s1\<close> this s1(2)] that show ?thesis by blast
    qed
    from c'(2) chron running have "chronological c' [(t0, rd, tv, ts, lost)]" by blast
    then have "c' \<le> t0" by simp
    with c'(1) obtain L where L: "lastSpeechTime ?s = of_nat L" "T1 \<le> L" "L \<le> t0"
      by (auto simp: stamped_def)
    have auto_mode: "\<not> manualRecording ?s" using s1(3) by (rule session_run_config)
    have "realtimeChunkTime ?s = realtimeChunkTime s0"
      by (rule realtimeChunkTime_cong) (simp add: session_run_config s1(4))
    with early have "\<not> f32 (realtimeChunkTime ?s * 1000) \<le> of_nat (unat (of_nat t0 - recordingStartTime ?s))"
      by (simp add: c'(3))
    with handleRecordingState_auto [OF running auto_mode, of "of_nat t0" rd "of_nat tv" "of_nat ts" lost] fired
    have "SILENCE_DURATION < of_nat t0 - lastSpeechTime ?s" by blast
    then have "unat SILENCE_DURATION < unat (of_nat t0 - of_nat L :: millis)"
      by (simp only: L(1) word_less_nat_alt)
    also have "\<dots> \<le> t0 - L" using L(3) by (rule unat_of_nat_diff_le)
    also have "\<dots> \<le> t0 - T1" using L(2) by simp
    finally show ?thesis by simp
  qed
  from first second show ?thesis by blast
qed

lemma limit_15s:
  assumes "maxBufferSize s = 240000"
  shows "f32 (realtimeChunkTime s * 1000) = 3000" "f32 (targetDuration s * 1000) = 15000"
  using limit_whole_seconds [of s 15] assms by (simp_all add: SAMPLE_RATE_def)

lemma f32_numeral:
  "(numeral n :: nat) < 2 ^ 24 \<Longrightarrow> f32 (numeral n) = numeral n"
  using f32_of_nat_exact [of "numeral n"] by simp

lemma session_example:
  "currentState (session_run [(5500, Some (replicate 60 0), 5500, 5500, None)]
      (startRecording False 5000 5000 connected_device)) = RECORDING"
  "currentState (handleRecordingState 6001 (Some (replicate 10 0)) 6001 6002 None
      (session_run [(5500, Some (replicate 60 0), 5500, 5500, None)]
        (startRecording False 5000 5000 connected_device))) = IDLE"
  by (simp_all add: handleRecordingState_def checkVoiceActivity_def store_block_def stopRecording_def
      startRecording_def connected_device_fields rms_replicate_0 limit_compare_word limit_15s f32_numeral
      SILENCE_THRESHOLD_def SILENCE_DURATION_def Let_def)

theorem start_primes_voice_tracker_witness:
  "speechDetected (startRecording False 5000 5000 connected_device)
   \<and> lastSpeechTime (startRecording False 5000 5000 connected_device) = 5000
   \<and> currentState (handleRecordingState 6001 (Some (replicate 10 0)) 6001 6002 None
        (session_run [(5500, Some (replicate 60 0), 5500, 5500, None)]
          (startRecording False 5000 5000 connected_device))) = IDLE
   \<and> (5000 :: nat) + unat SILENCE_DURATION < 6001"
proof -
  note inst = start_primes_voice_tracker [where ?s0.0 = connected_device and manual = False
      and ?t1.0 = 5000 and ?t2.0 = 5000 and ?T1.0 = 5000 and ?T2.0 = 5000
      and pre = "[(5500, Some (replicate 60 0), 5500, 5500, None)]"
      and ?t0.0 = 6001 and rd = "Some (replicate 10 0)" and tv = 6001 and ts = 6002 and lost = None]
  have start: "speechDetected (startRecording False 5000 5000 connected_device)"
    "lastSpeechTime (startRecording False 5000 5000 connected_device) = 5000"
    using inst [THEN conjunct1] by (simp_all add: connected_device_fields)
  have early: "\<not> f32 (realtimeChunkTime connected_device * 1000) \<le> of_nat (unat (of_nat 6001 - of_nat 5000 :: millis))"
    by (simp add: limit_15s connected_device_fields)
  have "(5000 :: nat) + unat SILENCE_DURATION < 6001"
    using inst [THEN conjunct2] early session_example
    by (simp add: connected_device_fields)
  with start session_example(2) show ?thesis by blast
qed

section \<open>The validity gate at the sample floor\<close>

lemma session_with_tracker:
  assumes "0 < n" "n \<le> 240000"
  shows "lastSpeechTime (session_with n) = 5000" "speechDetected (session_with n)"
  using assms
  by (auto simp: session_with_def checkVoiceActivity_def store_block_def rms_replicate_0
      SILENCE_THRESHOLD_def SILENCE_DURATION_def eval_defs)

text \<open>
  C1 fails on the sketch at the sample floor.  A session that holds exactly 100 samples
  and is stopped exactly 100 ms after it began is valid by the claim, and by the comment on
  the test itself ("at least 100 samples"); but \<open>stopRecording\<close> tests
  \<open>bufferIndex > 100\<close>: nothing is sent and the state becomes \<open>IDLE\<close>, while the same
  stop with 101 samples sends.  The silence rule of \<open>handleRecordingState\<close>, whose floor
  is 50 samples, stops a session that has reached 80 samples in order to send it, and the
  gate discards that one as well.
\<close>

theorem stopRecording_discards_hundred_samples:
  "currentState (session_with 100) = RECORDING
   \<and> bufferIndex (session_with 100) = 100
   \<and> unat (5100 - recordingStartTime (session_with 100)) = 100
   \<and> currentState (stopRecording 5100 None (session_with 100)) = IDLE
   \<and> audioNotified (stopRecording 5100 None (session_with 100)) = []
   \<and> currentState (stopRecording 5100 None (session_with 101)) = PROCESSING
   \<and> currentState (session_with 70) = RECORDING
   \<and> currentState (handleRecordingState 6060 (Some (replicate 10 0)) 6060 6061 None (session_with 70)) = IDLE
   \<and> audioNotified (handleRecordingState 6060 (Some (replicate 10 0)) 6060 6061 None (session_with 70)) = []"
  by (simp add: session_with_fields session_with_tracker stopRecording_def handleRecordingState_def
      checkVoiceActivity_def store_block_def rms_replicate_0 limit_compare_word limit_15s f32_numeral
      SILENCE_THRESHOLD_def SILENCE_DURATION_def Let_def)

section \<open>At most one recording session\<close>

text \<open>
  One iteration of \<open>loop()\<close> is three events of a run: the link poll, the call of
  \<open>checkButtons\<close> and the call of the state handler.
\<close>

lemma loop_run: "loop b h k = run [LinkPoll t, Buttons b, Handler h] k"
  by (simp add: loop_def)

text \<open>The device that the calls of an event leave is the device after the event.\<close>

lemma calls_last:
  "dev (step e k) = (if calls e k = [] then dev k else snd (snd (last (calls e k))))"
  by (cases e) (simp_all add: checkButtons_def)

lemma stopRecording_start [simp]:
  "recordingStartTime (stopRecording ts lost x) = recordingStartTime x"
proof -
  obtain d ns where "sendAudioToPc lost (x\<lparr>recordingActive := False, manualRecording := False\<rparr>)
      = (x\<lparr>recordingActive := False, manualRecording := False\<rparr>)\<lparr>deviceConnected := d, audioNotified := ns\<rparr>"
    using sendAudioToPc_frame by blast
  then show ?thesis by (simp add: stopRecording_def Let_def)
qed

lemma stopRecording_not_recording [simp]:
  "currentState (stopRecording ts lost s) \<noteq> RECORDING"
  by (cases "currentState s = RECORDING") (simp_all add: stopRecording_leaves stopRecording_idle)

lemma handleModeButton_not_recording [simp]:
  "currentState (handleModeButton ts lost s) \<noteq> RECORDING"
  by (simp add: handleModeButton_def split: SystemState.splits)

lemma continues_refl [simp]: "continues s s"
  by (simp add: continues_def)

lemma continues_trans: "continues a b \<Longrightarrow> continues b c \<Longrightarrow> continues a c"
  by (auto simp: continues_def)

lemma store_block_mono: "bufferIndex s \<le> bufferIndex (store_block b s)"
  by (simp add: store_block_def Let_def)

lemma checkVoiceActivity_continues: "continues s (snd (checkVoiceActivity rd tv s))"
proof (cases rd)
  case None
  then show ?thesis by (simp add: checkVoiceActivity_def)
next
  case (Some b)
  then show ?thesis
    using checkVoiceActivity_store(1,2) [of b tv s] checkVoiceActivity_frame(2) [of rd tv s]
      store_block_mono [of s b] store_block_before [of _ s b]
    by (simp add: continues_def)
qed

lemma handleRecordingState_recording:
  assumes "currentState (handleRecordingState t0 rd tv ts lost s) = RECORDING"
  shows "handleRecordingState t0 rd tv ts lost s = snd (checkVoiceActivity rd tv s)"
proof -
  obtain speaking s1 where c: "checkVoiceActivity rd tv s = (speaking, s1)"
    by (cases "checkVoiceActivity rd tv s")
  from assms show ?thesis
    by (auto simp: handleRecordingState_def Let_def c split: if_splits)
qed

lemma call_ok_same [simp]: "call_ok tb s s"
  by (simp add: call_ok_def)

lemma checkBluetoothConnection_ok: "call_ok t s (checkBluetoothConnection s)"
  by (auto simp: call_ok_def checkBluetoothConnection_def Let_def continues_def split: if_splits)

lemma onConnect_ok: "call_ok t s (onConnect s)"
  by (simp add: call_ok_def onConnect_def continues_def)

lemma onDisconnect_ok: "call_ok t s (onDisconnect s)"
  by (simp add: call_ok_def onDisconnect_def continues_def)

lemma onWrite_ok: "call_ok t s (onWrite rxValue s)"
  by (auto simp: call_ok_def onWrite_def handleBLECommand_def handlePlayAudio_def sendStatus_def
      handleError_def continues_def split: if_splits)

lemma startRecording_ok: "call_ok tb s (startRecording manual (of_nat tb) t2 s)"
  by (auto simp: call_ok_def startRecording_def)

lemma recordButtonEdge_ok: "call_ok (pressStart1 b) s (recordButtonEdge b k s)"
  using startRecording_ok [of "pressStart1 b" s True "of_nat (pressStart2 b)"]
  by (auto simp: recordButtonEdge_def call_ok_def)

lemma modeButtonEdge_ok: "call_ok t s (modeButtonEdge b k s)"
  by (auto simp: modeButtonEdge_def call_ok_def)

lemma checkVoiceActivity_link:
  "bluetoothConnected (snd (checkVoiceActivity rd tv s)) = bluetoothConnected s"
  by (auto simp: checkVoiceActivity_def store_block_def Let_def split: option.splits)

lemma handleState_ok: "call_ok (voiceStart1 h) (dev k) (dev (handleState h k))"
proof (cases "currentState (dev k)")
  case IDLE
  obtain speaking s1 where c: "checkVoiceActivity (i2sRead h) (of_nat (vadTime h)) (dev k) = (speaking, s1)"
    by (cases "checkVoiceActivity (i2sRead h) (of_nat (vadTime h)) (dev k)")
  have s1: "currentState s1 = IDLE" "bluetoothConnected s1 = bluetoothConnected (dev k)"
    using checkVoiceActivity_frame(1) [of "i2sRead h" "of_nat (vadTime h)" "dev k"]
      checkVoiceActivity_link [of "i2sRead h" "of_nat (vadTime h)" "dev k"] c IDLE by simp_all
  show ?thesis
    using IDLE s1
    by (auto simp: handleState_def handleIdleState_def c call_ok_def startRecording_def split: if_splits)
next
  case RECORDING
  let ?s' = "handleRecordingState (of_nat (entryTime h)) (i2sRead h) (of_nat (vadTime h))
      (of_nat (stopTime h)) (stopLost h) (dev k)"
  have "continues (dev k) ?s'" if "currentState ?s' = RECORDING"
    using handleRecordingState_recording [OF that]
      checkVoiceActivity_continues [of "dev k" "i2sRead h" "of_nat (vadTime h)"] by simp
  with RECORDING show ?thesis
    by (simp add: handleState_def call_ok_def)
qed (simp_all add: handleState_def)


subsection \<open>The session log along a run\<close>

lemma separate_later:
  "separate t done (Some a) \<Longrightarrow> a \<le> a' \<Longrightarrow> separate t done (Some a')"
  by (induction t "done" "Some a" rule: separate.induct) auto

lemma separate_close:
  "separate t (done @ [(a, b)]) running \<longleftrightarrow>
     separate t done (Some a) \<and> a \<le> b \<and> (case running of None \<Rightarrow> True | Some c \<Rightarrow> b \<le> c)"
  by (induction "done" arbitrary: t) (auto split: option.splits)

lemma log_inv_later: "log_inv T0 T s lg \<Longrightarrow> T \<le> T' \<Longrightarrow> log_inv T0 T' s lg"
  using separate_later [of T0 "snd lg" T T']
  by (auto simp: log_inv_def)

lemma observe_inv:
  assumes inv: "log_inv T0 T s lg" and ok: "call_ok tb s s'"
    and "T \<le> tb" "T \<le> te" "tb \<le> T'" "te \<le> T'"
  shows "log_inv T0 T' s' (observe tb te s s' lg)"
proof -
  obtain running fin where lg: "lg = (running, fin)" by (cases lg)
  consider (enter) "currentState s \<noteq> RECORDING" "currentState s' = RECORDING"
    | (leave) "currentState s = RECORDING" "currentState s' \<noteq> RECORDING"
    | (stay) "currentState s = RECORDING" "currentState s' = RECORDING"
    | (out) "currentState s \<noteq> RECORDING" "currentState s' \<noteq> RECORDING"
    by blast
  then show ?thesis
  proof cases
    case enter
    with inv lg have "running = None" "separate T0 fin (Some T)"
      by (auto simp: log_inv_def)
    moreover from ok enter have "recordingStartTime s' = of_nat tb"
      by (simp add: call_ok_def)
    ultimately show ?thesis
      using enter assms(3,5) separate_later [of T0 fin T tb]
      by (simp add: log_inv_def observe_def lg)
  next
    case leave
    with inv lg obtain a where a: "running = Some a" "a \<le> T" "separate T0 fin (Some a)"
      by (cases running) (auto simp: log_inv_def)
    with leave assms(4,6) show ?thesis
      by (simp add: log_inv_def observe_def lg separate_close)
  next
    case stay
    with inv lg obtain a where a: "running = Some a" "a \<le> T" "separate T0 fin (Some a)"
      "recordingStartTime s = of_nat a"
      by (cases running) (auto simp: log_inv_def)
    moreover from ok stay have "recordingStartTime s' = recordingStartTime s"
      by (simp add: call_ok_def continues_def)
    ultimately show ?thesis
      using stay assms(3,5)
      by (simp add: log_inv_def observe_def lg)
  next
    case out
    with inv lg have "running = None" "separate T0 fin (Some T)" "separate T0 fin None"
      by (auto simp: log_inv_def)
    with out assms(3,5) show ?thesis
      using separate_later [of T0 fin T T']
      by (simp add: log_inv_def observe_def lg)
  qed
qed

lemma event_inv:
  assumes inv: "log_inv T0 T (dev k) lg" and chrono: "sorted (T # readings e)"
  shows "log_inv T0 (last (readings e)) (dev (step e k)) (observe_calls (calls e k) (dev k) lg)"
proof (cases e)
  case (LinkPoll t)
  with chrono show ?thesis
    using observe_inv [OF inv checkBluetoothConnection_ok [of t "dev k"], of t t] by simp
next
  case (BleConnect t)
  with chrono show ?thesis
    using observe_inv [OF inv onConnect_ok [of t "dev k"], of t t] by simp
next
  case (BleDisconnect t)
  with chrono show ?thesis
    using observe_inv [OF inv onDisconnect_ok [of t "dev k"], of t t] by simp
next
  case (BleWrite t rxValue)
  with chrono show ?thesis
    using observe_inv [OF inv onWrite_ok [of t "dev k" rxValue], of t t] by simp
next
  case (Handler h)
  with chrono show ?thesis
    using observe_inv [OF inv handleState_ok [of h k], of "stopTime h" "idleDone h"] by simp
next
  case (Buttons b)
  show ?thesis
  proof (cases "of_nat (checkTime b) - lastButtonCheck k < (50 :: millis)")
    case True
    with Buttons chrono show ?thesis
      using log_inv_later [OF inv, of "doneTime b"] by (simp add: checkButtons_def)
  next
    case False
    from chrono Buttons have order: "T \<le> pressStart1 b" "T \<le> pressStop b"
      "pressStart1 b \<le> pressStop b" "pressStop b \<le> modeStop b" "modeStop b \<le> doneTime b"
      by auto
    have first: "log_inv T0 (pressStop b) (recordButtonEdge b k (dev k))
        (observe (pressStart1 b) (pressStop b) (dev k) (recordButtonEdge b k (dev k)) lg)"
      using observe_inv [OF inv recordButtonEdge_ok [of b "dev k" k], of "pressStop b" "pressStop b"] order
      by simp
    have "log_inv T0 (doneTime b) (modeButtonEdge b k (recordButtonEdge b k (dev k)))
        (observe (modeStop b) (modeStop b) (recordButtonEdge b k (dev k))
          (modeButtonEdge b k (recordButtonEdge b k (dev k)))
          (observe (pressStart1 b) (pressStop b) (dev k) (recordButtonEdge b k (dev k)) lg))"
      using observe_inv [OF first modeButtonEdge_ok [of "modeStop b" "recordButtonEdge b k (dev k)" b k],
          of "modeStop b" "doneTime b"] order
      by simp
    with False Buttons show ?thesis
      by (simp add: checkButtons_def)
  qed
qed

lemma readings_last: "sorted (T # readings e) \<Longrightarrow> T \<le> last (readings e)"
  by (cases e) auto

lemma sessions_inv:
  assumes "log_inv T0 T (dev k) lg" "chronological_events T es"
  shows "\<exists>T'. log_inv T0 T' (dev (run es k)) (sessions es k lg)"
  using assms
proof (induction es arbitrary: k lg T)
  case Nil
  then show ?case by auto
next
  case (Cons e es)
  from Cons.prems have "log_inv T0 (last (readings e)) (dev (step e k)) (observe_calls (calls e k) (dev k) lg)"
    using event_inv by simp
  with Cons.prems show ?case
    using Cons.IH [of "last (readings e)" "step e k" "observe_calls (calls e k) (dev k) lg"] by simp
qed

text \<open>An event that leaves the state at \<open>RECORDING\<close>.\<close>

lemma modeButtonEdge_recording:
  "currentState (modeButtonEdge b k s) = RECORDING \<Longrightarrow> modeButtonEdge b k s = s"
  by (auto simp: modeButtonEdge_def split: if_splits)

lemma step_ok: "call_ok t (dev k) (dev (step e k)) \<or>
    (\<exists>b. e = Buttons b \<and> call_ok (pressStart1 b) (dev k) (dev (step e k)))
    \<or> (\<exists>h. e = Handler h \<and> call_ok (voiceStart1 h) (dev k) (dev (step e k)))"
proof (cases e)
  case (Buttons b)
  have "call_ok (pressStart1 b) (dev k) (dev (checkButtons b k))"
  proof (cases "currentState (dev (checkButtons b k)) = RECORDING")
    case True
    then show ?thesis
      using recordButtonEdge_ok [of b "dev k" k] modeButtonEdge_recording [of b k "recordButtonEdge b k (dev k)"]
      by (auto simp: checkButtons_def split: if_splits)
  next
    case False
    then show ?thesis by (simp add: call_ok_def)
  qed
  with Buttons show ?thesis by simp
next
  case (Handler h)
  then show ?thesis using handleState_ok [of h k] by simp
qed (simp_all add: checkBluetoothConnection_ok onConnect_ok onDisconnect_ok onWrite_ok)

text \<open>
  C4.  \<open>startRecording\<close> returns the device unchanged unless the state is \<open>IDLE\<close> and
  the link is connected.  A run of the sketch is any sequence of calls of \<open>checkButtons\<close>,
  of the state handler and of the link poll, as \<open>loop()\<close> makes them, and of the BLE
  callbacks, with any pin levels, microphone blocks and command bytes.  An event that
  finds and leaves the state \<open>RECORDING\<close> has not begun a session: the start time and
  the samples recorded so far are as before (a press of the record button while recording
  stops the session, and the voice check of \<open>handleIdleState\<close> is not run).  An event
  that takes the state to \<open>RECORDING\<close> found it \<open>IDLE\<close> with the link connected, and
  leaves an empty buffer.  So when the clock readings never decrease, the sessions of a
  run that starts outside \<open>RECORDING\<close> are separate: each begins no earlier than the one
  before it stopped.  One is running at the end exactly when the state is \<open>RECORDING\<close>,
  and \<open>recordingStartTime\<close> is the reading at which it began.
\<close>

theorem at_most_one_session:
  "(currentState s \<noteq> IDLE \<or> \<not> bluetoothConnected s \<longrightarrow> startRecording manual t1 t2 s = s)
   \<and> (currentState (dev k) = RECORDING \<and> currentState (dev (step e k)) = RECORDING \<longrightarrow>
        recordingStartTime (dev (step e k)) = recordingStartTime (dev k)
        \<and> bufferIndex (dev k) \<le> bufferIndex (dev (step e k))
        \<and> (\<forall>i < bufferIndex (dev k). recordingBuffer (dev (step e k)) i = recordingBuffer (dev k) i))
   \<and> (currentState (dev k) \<noteq> RECORDING \<and> currentState (dev (step e k)) = RECORDING \<longrightarrow>
        currentState (dev k) = IDLE \<and> bluetoothConnected (dev k) \<and> bufferIndex (dev (step e k)) = 0)
   \<and> (chronological_events T es \<and> currentState (dev k) \<noteq> RECORDING \<longrightarrow>
        (case sessions es k (None, []) of (running, finished) \<Rightarrow>
           separate T finished running
           \<and> (running = None \<longleftrightarrow> currentState (dev (run es k)) \<noteq> RECORDING)
           \<and> (\<forall>a. running = Some a \<longrightarrow> recordingStartTime (dev (run es k)) = of_nat a)))"
proof -
  have noop: "startRecording manual t1 t2 s = s" if "currentState s \<noteq> IDLE \<or> \<not> bluetoothConnected s"
    using that by (simp add: startRecording_def)
  obtain t where ok: "call_ok t (dev k) (dev (step e k))"
    using step_ok [of _ k e] by blast
  have stay: "recordingStartTime (dev (step e k)) = recordingStartTime (dev k)
        \<and> bufferIndex (dev k) \<le> bufferIndex (dev (step e k))
        \<and> (\<forall>i < bufferIndex (dev k). recordingBuffer (dev (step e k)) i = recordingBuffer (dev k) i)"
    if "currentState (dev k) = RECORDING \<and> currentState (dev (step e k)) = RECORDING"
    using ok that by (simp add: call_ok_def continues_def)
  have enter: "currentState (dev k) = IDLE \<and> bluetoothConnected (dev k) \<and> bufferIndex (dev (step e k)) = 0"
    if "currentState (dev k) \<noteq> RECORDING \<and> currentState (dev (step e k)) = RECORDING"
    using ok that by (simp add: call_ok_def)
  have runs: "case sessions es k (None, []) of (running, finished) \<Rightarrow>
           separate T finished running
           \<and> (running = None \<longleftrightarrow> currentState (dev (run es k)) \<noteq> RECORDING)
           \<and> (\<forall>a. running = Some a \<longrightarrow> recordingStartTime (dev (run es k)) = of_nat a)"
    if "chronological_events T es \<and> currentState (dev k) \<noteq> RECORDING"
  proof -
    from that have "log_inv T T (dev k) (None, [])"
      by (simp add: log_inv_def)
    with that obtain T' where "log_inv T T' (dev (run es k)) (sessions es k (None, []))"
      using sessions_inv by blast
    then show ?thesis
      by (auto simp: log_inv_def split: prod.splits)
  qed
  from noop stay enter runs show ?thesis by blast
qed

text \<open>
  The example run, evaluated: a voice event and a second press of the record button during
  the first session, and three sessions one after the other.
\<close>

lemma sendAudioToPc_fields [simp]:
  "currentState (sendAudioToPc lost s) = currentState s"
  "bluetoothConnected (sendAudioToPc lost s) = bluetoothConnected s"
  "recordingActive (sendAudioToPc lost s) = recordingActive s"
  "recordingStartTime (sendAudioToPc lost s) = recordingStartTime s"
  "oldDeviceConnected (sendAudioToPc lost s) = oldDeviceConnected s"
  "speechDetected (sendAudioToPc lost s) = speechDetected s"
  "manualRecording (sendAudioToPc lost s) = manualRecording s"
  "recordingBuffer (sendAudioToPc lost s) = recordingBuffer s"
  "bufferIndex (sendAudioToPc lost s) = bufferIndex s"
  "maxBufferSize (sendAudioToPc lost s) = maxBufferSize s"
proof -
  obtain d ns where "sendAudioToPc lost s = s\<lparr>deviceConnected := d, audioNotified := ns\<rparr>"
    using sendAudioToPc_frame by blast
  then show "currentState (sendAudioToPc lost s) = currentState s"
  "bluetoothConnected (sendAudioToPc lost s) = bluetoothConnected s"
  "recordingActive (sendAudioToPc lost s) = recordingActive s"
  "recordingStartTime (sendAudioToPc lost s) = recordingStartTime s"
  "oldDeviceConnected (sendAudioToPc lost s) = oldDeviceConnected s"
  "speechDetected (sendAudioToPc lost s) = speechDetected s"
  "manualRecording (sendAudioToPc lost s) = manualRecording s"
  "recordingBuffer (sendAudioToPc lost s) = recordingBuffer s"
  "bufferIndex (sendAudioToPc lost s) = bufferIndex s"
  "maxBufferSize (sendAudioToPc lost s) = maxBufferSize s"
    by simp_all
qed

lemmas run_defs = buttons_at_def handler_at_def checkButtons_def recordButtonEdge_def
  modeButtonEdge_def handleModeButton_def handleState_def handleIdleState_def onWrite_def
  handleBLECommand_def initial_sketch_def initial_device_def onConnect_def
  checkBluetoothConnection_def startRecording_def stopRecording_def handleRecordingState_def
  checkVoiceActivity_def store_block_def observe_def rms_def sum_list_replicate
  SILENCE_THRESHOLD_def SILENCE_DURATION_def limit_compare_word limit_15s f32_numeral Let_def

lemma example_sessions:
  "sessions (example_start @ example_rest) (initial_sketch 240000) (None, [])
     = (Some 4000, [(2000, 2500), (3000, 3400)])"
  by (simp add: example_start_def example_rest_def run_defs)

lemma example_chronological: "chronological_events 0 (example_start @ example_rest)"
  by (simp add: example_start_def example_rest_def buttons_at_def handler_at_def)

lemma example_recording:
  "currentState (dev (run example_start (initial_sketch 240000))) = RECORDING"
  "recordingStartTime (dev (run example_start (initial_sketch 240000))) = 2000"
  "bufferIndex (dev (run example_start (initial_sketch 240000))) = 200"
  "currentState (dev (step (Handler (handler_at (replicate 200 1000) 2200))
      (run example_start (initial_sketch 240000)))) = RECORDING"
  "bufferIndex (dev (step (Handler (handler_at (replicate 200 1000) 2200))
      (run example_start (initial_sketch 240000)))) = 400"
  by (simp_all add: example_start_def run_defs)

lemma example_begin:
  "currentState (dev (run [BleConnect 1000, LinkPoll 1010] (initial_sketch 240000))) = IDLE"
  "currentState (dev (step (Buttons (buttons_at False True 2000))
      (run [BleConnect 1000, LinkPoll 1010] (initial_sketch 240000)))) = RECORDING"
  by (simp_all add: run_defs)

theorem at_most_one_session_witness:
  "startRecording True 6000 6001 (session_with 200) = session_with 200
   \<and> currentState (dev (run example_start (initial_sketch 240000))) = RECORDING
   \<and> currentState (dev (step (Handler (handler_at (replicate 200 1000) 2200))
        (run example_start (initial_sketch 240000)))) = RECORDING
   \<and> recordingStartTime (dev (step (Handler (handler_at (replicate 200 1000) 2200))
        (run example_start (initial_sketch 240000)))) = 2000
   \<and> bufferIndex (dev (step (Handler (handler_at (replicate 200 1000) 2200))
        (run example_start (initial_sketch 240000)))) = 400
   \<and> currentState (dev (run [BleConnect 1000, LinkPoll 1010] (initial_sketch 240000))) = IDLE
   \<and> bluetoothConnected (dev (run [BleConnect 1000, LinkPoll 1010] (initial_sketch 240000)))
   \<and> bufferIndex (dev (step (Buttons (buttons_at False True 2000))
        (run [BleConnect 1000, LinkPoll 1010] (initial_sketch 240000)))) = 0
   \<and> chronological_events 0 (example_start @ example_rest)
   \<and> sessions (example_start @ example_rest) (initial_sketch 240000) (None, [])
        = (Some 4000, [(2000, 2500), (3000, 3400)])
   \<and> separate 0 [(2000, 2500), (3000, 3400)] (Some 4000)
   \<and> currentState (dev (run (example_start @ example_rest) (initial_sketch 240000))) = RECORDING
   \<and> recordingStartTime (dev (run (example_start @ example_rest) (initial_sketch 240000))) = 4000"
proof -
  let ?k0 = "initial_sketch 240000"
  let ?k1 = "run [BleConnect 1000, LinkPoll 1010] ?k0"
  let ?k2 = "run example_start ?k0"
  let ?press = "Buttons (buttons_at False True 2000)"
  let ?voice = "Handler (handler_at (replicate 200 1000) 2200)"
  note stay = at_most_one_session [of "session_with 200" True 6000 6001 ?k2 ?voice 0 "[]"]
  note enter = at_most_one_session [of "session_with 200" True 6000 6001 ?k1 ?press 0 "[]"]
  note whole = at_most_one_session [of "session_with 200" True 6000 6001 ?k0 ?voice 0
      "example_start @ example_rest"]
  have busy: "currentState (session_with 200) \<noteq> IDLE"
    by (simp add: session_with_fields)
  with stay have noop: "startRecording True 6000 6001 (session_with 200) = session_with 200"
    by blast
  from stay example_recording(1,4) have "recordingStartTime (dev (step ?voice ?k2)) = recordingStartTime (dev ?k2)"
    by blast
  then have same: "recordingStartTime (dev (step ?voice ?k2)) = 2000"
    by (simp only: example_recording(2))
  have "currentState (dev ?k1) \<noteq> RECORDING"
    by (simp only: example_begin(1)) simp
  with enter example_begin(2) have fresh: "bluetoothConnected (dev ?k1)" "bufferIndex (dev (step ?press ?k1)) = 0"
    by blast+
  have idle: "currentState (dev ?k0) \<noteq> RECORDING"
    by (simp add: initial_sketch_def initial_device_def)
  from example_chronological idle
  have "case sessions (example_start @ example_rest) ?k0 (None, []) of (running, finished) \<Rightarrow>
           separate 0 finished running
           \<and> (running = None \<longleftrightarrow> currentState (dev (run (example_start @ example_rest) ?k0)) \<noteq> RECORDING)
           \<and> (\<forall>a. running = Some a \<longrightarrow> recordingStartTime (dev (run (example_start @ example_rest) ?k0)) = of_nat a)"
    by (intro whole [THEN conjunct2, THEN conjunct2, THEN conjunct2, THEN mp] conjI)
  then have log: "separate 0 [(2000, 2500), (3000, 3400)] (Some 4000)"
    "currentState (dev (run (example_start @ example_rest) ?k0)) = RECORDING"
    "recordingStartTime (dev (run (example_start @ example_rest) ?k0)) = 4000"
    by (simp_all only: example_sessions prod.case) simp_all
  from noop example_recording(1,4,5) same example_begin(1) fresh example_chronological
    example_sessions log
  show ?thesis by blast
qed

end
